theory Spec2Isabelle
  imports Complex_Main "HOL-Library.AList" "HOL-Library.Multiset"
begin

section \<open>Python values, errors and strings\<close>

text \<open>
  The dictionaries of the program (documents, informs, constraints) map string keys to
  values that are Python integers or strings.  A dictionary is an association list in
  insertion order with distinct keys: \<open>map_of\<close> is the lookup, \<open>AList.update\<close> is
  item assignment (an existing key keeps its position, a new key goes to the end, as
  in Python), \<open>AList.delete\<close> is \<^verbatim>\<open>pop(key, None)\<close>.  A Python set of keys is a
  duplicate-free list; the iteration order of a Python set is unspecified, and the
  properties below only use \<open>set\<close> of such a list.  Strings are ASCII.

  Every exception the modelled code can raise is a value of \<open>error\<close>.  Python's
  \<^verbatim>\<open>ValueError\<close> is split by the operation that raises it.
\<close>

type_synonym key = string

datatype pyval = PInt int | PStr string

type_synonym pydict = "(key \<times> pyval) list"

datatype error =
    AttributeError \<comment> \<open>a \<^verbatim>\<open>str\<close> method (\<^verbatim>\<open>split\<close>, \<^verbatim>\<open>find\<close>) called on an \<^verbatim>\<open>int\<close>\<close>
  | ValueError_int \<comment> \<open>\<^verbatim>\<open>int(s)\<close> on a string that is no integer literal\<close>
  | ValueError_unpack \<comment> \<open>unpacking a sequence of the wrong length\<close>
  | ValueError_index \<comment> \<open>\<^verbatim>\<open>list.index\<close> of an item that is not in the list\<close>
  | ValueError_range \<comment> \<open>\<^verbatim>\<open>range\<close> with step 0\<close>
  | ValueError_empty \<comment> \<open>the maximum of an empty array\<close>
  | KeyError key
  | IndexError
  | TypeError
  | ZeroDivisionError

definition is_digit :: "char \<Rightarrow> bool" where
  "is_digit c \<longleftrightarrow> c \<in> set ''0123456789''"

definition is_alpha :: "char \<Rightarrow> bool" where
  "is_alpha c \<longleftrightarrow>
     c \<in> set ''abcdefghijklmnopqrstuvwxyz'' \<or> c \<in> set ''ABCDEFGHIJKLMNOPQRSTUVWXYZ''"

text \<open>\<^verbatim>\<open>\w\<close> of the regular expression: a letter, a digit or the underscore.\<close>

definition is_word :: "char \<Rightarrow> bool" where
  "is_word c \<longleftrightarrow> is_alpha c \<or> is_digit c \<or> c = CHR ''_''"

text \<open>
  Python's ASCII whitespace (\<^verbatim>\<open>str.isspace\<close>, \<^verbatim>\<open>str.split\<close> and \<^verbatim>\<open>\s\<close>):
  the characters 9 to 13, 28 to 31 and the space.
\<close>

definition is_space :: "char \<Rightarrow> bool" where
  "is_space c \<longleftrightarrow>
     c \<in> set [CHR 0x09, CHR 0x0A, CHR 0x0B, CHR 0x0C, CHR 0x0D,
               CHR 0x1C, CHR 0x1D, CHR 0x1E, CHR 0x1F, CHR 0x20]"

definition lower_char :: "char \<Rightarrow> char" where
  "lower_char c =
     (case map_of (zip ''ABCDEFGHIJKLMNOPQRSTUVWXYZ'' ''abcdefghijklmnopqrstuvwxyz'') c of
        None \<Rightarrow> c | Some l \<Rightarrow> l)"

text \<open>\<^verbatim>\<open>s.lower()\<close>\<close>

definition py_lower :: "string \<Rightarrow> string" where
  "py_lower s = map lower_char s"

text \<open>\<^verbatim>\<open>re.sub(r'[^\w\s]', '', s)\<close>: every character that is neither a word character nor
  whitespace is deleted.\<close>

definition strip_punctuation :: "string \<Rightarrow> string" where
  "strip_punctuation s = filter (\<lambda>c. is_word c \<or> is_space c) s"

text \<open>\<^verbatim>\<open>s.isdigit()\<close>: at least one character, and all of them digits.\<close>

definition py_isdigit :: "string \<Rightarrow> bool" where
  "py_isdigit s \<longleftrightarrow> s \<noteq> [] \<and> list_all is_digit s"

definition digit_val :: "char \<Rightarrow> int" where
  "digit_val c =
     (case map_of [(CHR ''0'', 0), (CHR ''1'', 1), (CHR ''2'', 2), (CHR ''3'', 3), (CHR ''4'', 4),
                   (CHR ''5'', 5), (CHR ''6'', 6), (CHR ''7'', 7), (CHR ''8'', 8), (CHR ''9'', 9)] c of
        None \<Rightarrow> 0 | Some d \<Rightarrow> d)"

definition int_of_digits :: "string \<Rightarrow> int" where
  "int_of_digits s = foldl (\<lambda>n c. 10 * n + digit_val c) 0 s"

text \<open>
  \<^verbatim>\<open>int(s)\<close> for a string: surrounding whitespace is ignored, one sign is allowed,
  and the digits may be grouped by single underscores; anything else raises
  \<^verbatim>\<open>ValueError\<close>.
\<close>

definition py_strip :: "string \<Rightarrow> string" where
  "py_strip s = rev (dropWhile is_space (rev (dropWhile is_space s)))"

fun int_literal_ok :: "string \<Rightarrow> bool" where
  "int_literal_ok [] = False"
| "int_literal_ok [c] = is_digit c"
| "int_literal_ok (c # d # cs) =
     (if is_digit c
      then (if d = CHR ''_'' then int_literal_ok cs else int_literal_ok (d # cs))
      else False)"

definition int_of_unsigned :: "string \<Rightarrow> error + int" where
  "int_of_unsigned s =
     (if int_literal_ok s then Inr (int_of_digits (filter is_digit s)) else Inl ValueError_int)"

definition py_int_str :: "string \<Rightarrow> error + int" where
  "py_int_str s =
     (case py_strip s of
        [] \<Rightarrow> Inl ValueError_int
      | c # cs \<Rightarrow>
          if c = CHR ''-'' then (case int_of_unsigned cs of Inl e \<Rightarrow> Inl e | Inr n \<Rightarrow> Inr (- n))
          else if c = CHR ''+'' then int_of_unsigned cs
          else int_of_unsigned (c # cs))"

text \<open>\<^verbatim>\<open>int(v)\<close>\<close>

definition py_int :: "pyval \<Rightarrow> error + int" where
  "py_int v = (case v of PInt n \<Rightarrow> Inr n | PStr s \<Rightarrow> py_int_str s)"

text \<open>\<^verbatim>\<open>str(v)\<close>: the decimal numeral of an integer, a string as it is.\<close>

definition digit_char :: "nat \<Rightarrow> char" where
  "digit_char d = ''0123456789'' ! d"

fun str_of_nat :: "nat \<Rightarrow> string" where
  "str_of_nat n = (if n < 10 then [digit_char n] else str_of_nat (n div 10) @ [digit_char (n mod 10)])"

definition str_of_int :: "int \<Rightarrow> string" where
  "str_of_int i = (if i < 0 then CHR ''-'' # str_of_nat (nat (- i)) else str_of_nat (nat i))"

definition py_str :: "pyval \<Rightarrow> string" where
  "py_str v = (case v of PInt n \<Rightarrow> str_of_int n | PStr s \<Rightarrow> s)"

text \<open>\<^verbatim>\<open>s.split()\<close>: the maximal runs of non-whitespace characters.\<close>

fun py_split_from :: "string \<Rightarrow> string \<Rightarrow> string list" where
  "py_split_from w [] = (if w = [] then [] else [w])"
| "py_split_from w (c # cs) =
     (if is_space c
      then (if w = [] then py_split_from [] cs else w # py_split_from [] cs)
      else py_split_from (w @ [c]) cs)"

definition py_split :: "string \<Rightarrow> string list" where
  "py_split s = py_split_from [] s"

text \<open>\<^verbatim>\<open>text.find(word) != -1\<close>: the word occurs in the text as a substring.\<close>

fun py_find :: "string \<Rightarrow> string \<Rightarrow> bool" where
  "py_find [] w = (w = [])"
| "py_find (c # cs) w = (take (length w) (c # cs) = w \<or> py_find cs w)"


text \<open>Sequencing of computations that may raise: the first exception ends the computation.\<close>

definition ebind :: "error + 'a \<Rightarrow> ('a \<Rightarrow> error + 'b) \<Rightarrow> error + 'b" where
  "ebind m f = (case m of Inl e \<Rightarrow> Inl e | Inr x \<Rightarrow> f x)"

fun efold :: "('a \<Rightarrow> 'b \<Rightarrow> error + 'b) \<Rightarrow> 'a list \<Rightarrow> 'b \<Rightarrow> error + 'b" where
  "efold f [] acc = Inr acc"
| "efold f (x # xs) acc = ebind (f x acc) (efold f xs)"

fun emap :: "('a \<Rightarrow> error + 'b) \<Rightarrow> 'a list \<Rightarrow> error + 'b list" where
  "emap f [] = Inr []"
| "emap f (x # xs) = ebind (f x) (\<lambda>y. ebind (emap f xs) (\<lambda>ys. Inr (y # ys)))"

section \<open>Configuration (src/lib/config.py)\<close>

text \<open>The constant \<^verbatim>\<open>INF\<close> of the source is \<open>INF_intent\<close> here, since \<open>INF\<close> is
  the infimum of HOL.\<close>

definition INF_intent :: string where "INF_intent = ''INFORM''"
definition REQ :: string where "REQ = ''REQUEST''"
definition GOAL_KEY :: key where "GOAL_KEY = ''doi''"

definition AGT_INF_KEYS :: "key list" where
  "AGT_INF_KEYS =
     [''authors'', ''document_title'', ''publication_title'', ''content_type'', ''publisher'',
      ''open_access'', ''publication_year'', ''abstract'', ''num_citations'', GOAL_KEY]"

definition USR_INF_NUM_KEYS :: "key list" where
  "USR_INF_NUM_KEYS =
     [''publication_year'', ''min_publication_year'', ''max_publication_year'', ''min_num_citations'']"

definition USR_INF_STR_KEYS :: "key list" where
  "USR_INF_STR_KEYS =
     [''authors'', ''document_title'', ''publication_title'', ''publisher'', ''keywords'']"

definition USR_INF_ENUM_KEYS :: "(key \<times> string list) list" where
  "USR_INF_ENUM_KEYS =
     [(''open_access'', [''Yes'', ''No'']),
      (''content_type'', [''Conferences'', ''Journals'', ''Books''])]"

definition USR_INF_KEYS :: "key list" where
  "USR_INF_KEYS = USR_INF_NUM_KEYS @ USR_INF_STR_KEYS @ map fst USR_INF_ENUM_KEYS"

definition AGT_REQ_KEYS :: "key list" where "AGT_REQ_KEYS = USR_INF_KEYS"
definition USR_REQ_KEYS :: "key list" where "USR_REQ_KEYS = AGT_INF_KEYS"

definition OWT :: string where "OWT = ''ANYTHING''"
definition MA :: string where "MA = ''MATCHING ALL''"

definition USRSIM_INIT_INF :: "key list" where "USRSIM_INIT_INF = []"

definition USRSIM_REQ_ONLY_AFTER_AGT_INF :: "key list" where
  "USRSIM_REQ_ONLY_AFTER_AGT_INF =
     [''open_access'', ''publication_year'', ''num_citations'', ''content_type'']"

definition THX :: string where "THX = ''THANKS''"
definition RJCT :: string where "RJCT = ''REJECT''"
definition USR_SPEC_ACTS :: "string list" where "USR_SPEC_ACTS = [THX, RJCT]"
definition NMA :: string where "NMA = ''NO MATCH AVAILABLE''"
definition WCP :: string where "WCP = ''WITHDRAW CURRENT PROPOSALS''"
definition AGT_SPEC_ACTS :: "string list" where "AGT_SPEC_ACTS = [NMA, WCP]"

definition AGT_ACTS :: "(string \<times> key) list" where
  "AGT_ACTS = map (\<lambda>key. (INF_intent, key)) AGT_INF_KEYS @ map (\<lambda>key. (REQ, key)) AGT_REQ_KEYS"

section \<open>Matching (src/lib/match.py)\<close>

text \<open>
  The two comparison lambdas of \<^verbatim>\<open>CONSTRAINING_KEYS_MAPS\<close>:
  \<^verbatim>\<open>lambda x, y: int(x) >= int(y)\<close> and \<^verbatim>\<open>lambda x, y: int(x) <= int(y)\<close>.
\<close>

datatype cmp = Ge | Le

definition apply_cmp :: "cmp \<Rightarrow> pyval \<Rightarrow> pyval \<Rightarrow> error + bool" where
  "apply_cmp f x y =
     ebind (py_int x) (\<lambda>a. ebind (py_int y) (\<lambda>b.
       Inr (case f of Ge \<Rightarrow> a \<ge> b | Le \<Rightarrow> a \<le> b)))"

definition CONSTRAINING_KEYS_MAPS :: "(key \<times> key \<times> cmp) list" where
  "CONSTRAINING_KEYS_MAPS =
     [(''min_num_citations'', ''num_citations'', Ge),
      (''min_publication_year'', ''publication_year'', Ge),
      (''max_publication_year'', ''publication_year'', Le)]"

text \<open>
  \<^verbatim>\<open>
  CONSTRAINED_KEYS_MAPS = defaultdict(list)
  for constraining_key, (constrained_key, f) in CONSTRAINING_KEYS_MAPS.items():
      CONSTRAINED_KEYS_MAPS[constrained_key].append((constraining_key, f))
  \<close>
  Every later access to this dictionary is guarded by a membership test, so it is never
  extended after the loop.
\<close>

definition CONSTRAINED_KEYS_MAPS :: "(key \<times> (key \<times> cmp) list) list" where
  "CONSTRAINED_KEYS_MAPS =
     fold (\<lambda>(constraining_key, constrained_key, f) m.
             AList.update constrained_key
               ((case map_of m constrained_key of None \<Rightarrow> [] | Some l \<Rightarrow> l) @ [(constraining_key, f)]) m)
          CONSTRAINING_KEYS_MAPS []"

text \<open>\<^verbatim>\<open>_find_words(context, key, value)\<close>\<close>

definition find_words :: "pydict \<Rightarrow> key \<Rightarrow> pyval \<Rightarrow> error + bool" where
  "find_words context key value =
     (case map_of context key of
        None \<Rightarrow> Inr True
      | Some t \<Rightarrow>
          (case value of
             PInt _ \<Rightarrow> Inl AttributeError
           | PStr s \<Rightarrow>
               (case py_split s of
                  [] \<Rightarrow> Inr True
                | w # ws \<Rightarrow>
                    (case t of
                       PInt _ \<Rightarrow> Inl AttributeError
                     | PStr txt \<Rightarrow> Inr (list_all (py_find txt) (w # ws))))))"

text \<open>\<^verbatim>\<open>_match_lambda(key, context, f, v)\<close>\<close>

definition match_lambda ::
  "key \<Rightarrow> pydict \<Rightarrow> (pyval \<Rightarrow> pyval \<Rightarrow> error + bool) \<Rightarrow> pyval \<Rightarrow> error + bool" where
  "match_lambda key context f v =
     (case map_of context key of None \<Rightarrow> Inr True | Some x \<Rightarrow> f x v)"

definition match_authors :: "pydict \<Rightarrow> pyval \<Rightarrow> error + bool" where
  "match_authors context authors = find_words context ''authors'' authors"

definition match_document_title :: "pydict \<Rightarrow> pyval \<Rightarrow> error + bool" where
  "match_document_title context doc_title = find_words context ''document_title'' doc_title"

definition match_publication_title :: "pydict \<Rightarrow> pyval \<Rightarrow> error + bool" where
  "match_publication_title context pub_title = find_words context ''publication_title'' pub_title"

definition match_publisher :: "pydict \<Rightarrow> pyval \<Rightarrow> error + bool" where
  "match_publisher context publisher = find_words context ''publisher'' publisher"

text \<open>The \<^verbatim>\<open>or\<close> of Python evaluates its right operand only when the left one is false.\<close>

definition match_keywords :: "pydict \<Rightarrow> pyval \<Rightarrow> error + bool" where
  "match_keywords context keywords =
     ebind (find_words context ''abstract'' keywords) (\<lambda>a.
       if a then Inr True
       else ebind (find_words context ''document_title'' keywords) (\<lambda>b.
         if b then Inr True
         else find_words context ''publication_title'' keywords))"

definition special_constraints :: "(key \<times> (pydict \<Rightarrow> pyval \<Rightarrow> error + bool)) list" where
  "special_constraints =
     [(''authors'', match_authors),
      (''document_title'', match_document_title),
      (''publication_title'', match_publication_title),
      (''publisher'', match_publisher),
      (''keywords'', match_keywords)]"

text \<open>
  \<^verbatim>\<open>_preprocess\<close>: items whose value is the wildcard are dropped; an integer stays, a
  string of digits becomes the integer, any other string loses its punctuation and is
  lower-cased.
\<close>

definition preprocess_value :: "pyval \<Rightarrow> pyval" where
  "preprocess_value v =
     (case v of
        PInt n \<Rightarrow> PInt n
      | PStr s \<Rightarrow> if py_isdigit s then PInt (int_of_digits s)
                  else PStr (py_lower (strip_punctuation s)))"

definition preprocess :: "pydict \<Rightarrow> pydict" where
  "preprocess d = map (\<lambda>(k, v). (k, preprocess_value v)) (filter (\<lambda>(k, v). v \<noteq> PStr OWT) d)"

text \<open>\<^verbatim>\<open>lambda x, y: x == y\<close>; an integer and a string are never equal.\<close>

definition py_eq :: "pyval \<Rightarrow> pyval \<Rightarrow> error + bool" where
  "py_eq x y = Inr (x = y)"

text \<open>
  The body of the loop of \<^verbatim>\<open>get_conflict_keys\<close> for one item of the inform, in its
  three parts; \<open>conflicting_keys\<close> is the set built so far.
\<close>

definition conflicts_constraining :: "pydict \<Rightarrow> key \<Rightarrow> pyval \<Rightarrow> key list \<Rightarrow> error + key list" where
  "conflicts_constraining context inf_key inf_value conflicting_keys =
     (case map_of CONSTRAINING_KEYS_MAPS inf_key of
        None \<Rightarrow> Inr conflicting_keys
      | Some (constrained_key, f) \<Rightarrow>
          ebind (match_lambda constrained_key context (apply_cmp f) inf_value) (\<lambda>ok.
            Inr (if ok then conflicting_keys else List.insert constrained_key conflicting_keys)))"

definition conflicts_constrained :: "pydict \<Rightarrow> key \<Rightarrow> pyval \<Rightarrow> key list \<Rightarrow> error + key list" where
  "conflicts_constrained context inf_key inf_value conflicting_keys =
     (case map_of CONSTRAINED_KEYS_MAPS inf_key of
        None \<Rightarrow> Inr conflicting_keys
      | Some cks \<Rightarrow>
          efold (\<lambda>(constraining_key, f) acc.
                   ebind (match_lambda constraining_key context (\<lambda>x y. apply_cmp f y x) inf_value) (\<lambda>ok.
                     Inr (if ok then acc else List.insert constraining_key acc)))
                cks conflicting_keys)"

definition conflicts_own :: "pydict \<Rightarrow> key \<Rightarrow> pyval \<Rightarrow> key list \<Rightarrow> error + key list" where
  "conflicts_own context inf_key inf_value conflicting_keys =
     (case map_of special_constraints inf_key of
        Some m \<Rightarrow>
          ebind (m context inf_value) (\<lambda>ok.
            Inr (if ok then conflicting_keys else List.insert inf_key conflicting_keys))
      | None \<Rightarrow>
          ebind (match_lambda inf_key context py_eq inf_value) (\<lambda>ok.
            Inr (if ok then conflicting_keys else List.insert inf_key conflicting_keys)))"

definition conflicts_item :: "pydict \<Rightarrow> key \<times> pyval \<Rightarrow> key list \<Rightarrow> error + key list" where
  "conflicts_item context item conflicting_keys =
     (case item of (inf_key, inf_value) \<Rightarrow>
        ebind (conflicts_constraining context inf_key inf_value conflicting_keys) (\<lambda>c1.
        ebind (conflicts_constrained context inf_key inf_value c1) (\<lambda>c2.
        conflicts_own context inf_key inf_value c2)))"

text \<open>\<^verbatim>\<open>get_conflict_keys(inform, context)\<close>; the result is the set of conflicting keys.\<close>

definition get_conflict_keys :: "pydict \<Rightarrow> pydict \<Rightarrow> error + key list" where
  "get_conflict_keys inform context =
     efold (conflicts_item (preprocess context)) (preprocess inform) []"

section \<open>Knowledge base manager (src/lib/KBManager.py)\<close>

text \<open>
  A document is a dictionary.  The three caches of \<^verbatim>\<open>self._cache\<close> are
  \<^verbatim>\<open>defaultdict\<close>s: looking a missing key up yields the empty list (or the empty
  dictionary), so each cache is a total function whose default is \<open>[]\<close>.  The cache
  keys are \<^verbatim>\<open>frozenset(constraints.items())\<close>, the set of the items.  Every method
  returns its result together with the manager, whose caches it may have filled.
\<close>

record kb_manager =
  kb :: "pydict list"
  cache_documents :: "(key \<times> pyval) set \<Rightarrow> pydict list"
  cache_values :: "key \<times> (key \<times> pyval) set \<Rightarrow> string list"
  cache_count :: "(key \<times> pyval) set \<Rightarrow> (key \<times> nat) list"

text \<open>\<^verbatim>\<open>KBManager.__init__\<close>, with the loaded list of documents in place of the file.\<close>

definition KBManager :: "pydict list \<Rightarrow> kb_manager" where
  "KBManager documents =
     \<lparr>kb = documents, cache_documents = (\<lambda>_. []), cache_values = (\<lambda>_. []),
      cache_count = (\<lambda>_. [])\<rparr>"

fun efilter :: "('a \<Rightarrow> error + bool) \<Rightarrow> 'a list \<Rightarrow> error + 'a list" where
  "efilter p [] = Inr []"
| "efilter p (x # xs) =
     ebind (p x) (\<lambda>b. ebind (efilter p xs) (\<lambda>ys. Inr (if b then x # ys else ys)))"

text \<open>\<^verbatim>\<open>[doc for doc in self._kb if not get_conflict_keys(constraints, doc)]\<close>\<close>

definition matching_docs :: "pydict list \<Rightarrow> pydict \<Rightarrow> error + pydict list" where
  "matching_docs documents constraints =
     efilter (\<lambda>doc. ebind (get_conflict_keys constraints doc) (\<lambda>ck. Inr (ck = []))) documents"

definition find_matching_docs :: "kb_manager \<Rightarrow> pydict \<Rightarrow> error + (pydict list \<times> kb_manager)" where
  "find_matching_docs m constraints =
     (let hashable_constraints = set constraints in
      if cache_documents m hashable_constraints = []
      then ebind (matching_docs (kb m) constraints) (\<lambda>docs.
             Inr (docs, m\<lparr>cache_documents := (cache_documents m)(hashable_constraints := docs)\<rparr>))
      else Inr (cache_documents m hashable_constraints, m))"

text \<open>
  \<^verbatim>\<open>random.choice(xs)\<close> raises \<^verbatim>\<open>IndexError\<close> on an empty sequence; otherwise
  it returns any element.  The random source is an argument: the natural number
  \<open>n\<close> selects position \<open>n mod length xs\<close>, so every element can be chosen.
\<close>

definition random_choice :: "'a list \<Rightarrow> nat \<Rightarrow> error + 'a" where
  "random_choice xs n = (if xs = [] then Inl IndexError else Inr (xs ! (n mod length xs)))"

text \<open>\<^verbatim>\<open>[str(doc[key]) for doc in documents]\<close>\<close>

definition doc_values :: "key \<Rightarrow> pydict list \<Rightarrow> error + string list" where
  "doc_values key documents =
     emap (\<lambda>doc. case map_of doc key of None \<Rightarrow> Inl (KeyError key) | Some v \<Rightarrow> Inr (py_str v))
          documents"

definition find_matching_value ::
  "kb_manager \<Rightarrow> key \<Rightarrow> pydict \<Rightarrow> nat \<Rightarrow> error + (string \<times> kb_manager)" where
  "find_matching_value m key constraints pick =
     (let hashable_constraints = set constraints in
      ebind (if cache_values m (key, hashable_constraints) = []
             then ebind (find_matching_docs m constraints) (\<lambda>(documents, m1).
                    if documents = []
                    then Inr (m1\<lparr>cache_values := (cache_values m1)((key, hashable_constraints) := [NMA])\<rparr>)
                    else ebind (doc_values key documents) (\<lambda>vals.
                           Inr (m1\<lparr>cache_values := (cache_values m1)((key, hashable_constraints) := vals)\<rparr>)))
             else Inr m) (\<lambda>m2.
      ebind (random_choice (cache_values m2 (key, hashable_constraints)) pick) (\<lambda>v.
      Inr (v, m2))))"



text \<open>
  \<^verbatim>\<open>
  constraint = {GOAL_KEY : goal_proposal}
  proposed_doc, = self.find_matching_docs(constraint)
  return not get_conflict_keys(constraints, proposed_doc)
  \<close>
  The unpacking raises \<^verbatim>\<open>ValueError\<close> unless the list has exactly one element.
\<close>

definition check_goal_proposal_consistency ::
  "kb_manager \<Rightarrow> pyval \<Rightarrow> pydict \<Rightarrow> error + (bool \<times> kb_manager)" where
  "check_goal_proposal_consistency m goal_proposal constraints =
     ebind (find_matching_docs m [(GOAL_KEY, goal_proposal)]) (\<lambda>(docs, m1).
       case docs of
         [proposed_doc] \<Rightarrow>
           ebind (get_conflict_keys constraints proposed_doc) (\<lambda>ck. Inr (ck = [], m1))
       | _ \<Rightarrow> Inl ValueError_unpack)"


text \<open>
  What a dictionary of counts has to hold for a constraint set: the number of documents
  matching all constraints under \<open>MA\<close> (unless \<open>MA\<close> is itself a constraint key, whose
  own count then takes that place), and for every constraint the size of the knowledge
  base when its value is the wildcard, else the number of documents matching it alone.
\<close>

definition count_ok :: "pydict list \<Rightarrow> pydict \<Rightarrow> (key \<times> nat) list \<Rightarrow> bool" where
  "count_ok documents constraints d \<longleftrightarrow>
     (\<exists>docs. matching_docs documents constraints = Inr docs
            \<and> (MA \<notin> fst ` set constraints \<longrightarrow> map_of d MA = Some (length docs)))
   \<and> (\<forall>(k, v)\<in>set constraints.
          if v = PStr OWT then map_of d k = Some (length documents)
          else (\<exists>ds. matching_docs documents [(k, v)] = Inr ds \<and> map_of d k = Some (length ds)))
   \<and> dom (map_of d) = insert MA (fst ` set constraints)"

text \<open>
  The caches are coherent when every filled entry holds what the uncached computation
  yields on the (immutable) knowledge base.
\<close>

definition value_list_ok :: "pydict list \<Rightarrow> key \<Rightarrow> pydict \<Rightarrow> string list \<Rightarrow> bool" where
  "value_list_ok documents key constraints vals \<longleftrightarrow>
     (\<exists>docs. matching_docs documents constraints = Inr docs
            \<and> (if docs = [] then vals = [NMA] else doc_values key docs = Inr vals))"

definition documents_cache_ok :: "kb_manager \<Rightarrow> bool" where
  "documents_cache_ok m \<longleftrightarrow>
     (\<forall>c. cache_documents m (set c) \<noteq> [] \<longrightarrow>
            matching_docs (kb m) c = Inr (cache_documents m (set c)))"

definition values_cache_ok :: "kb_manager \<Rightarrow> bool" where
  "values_cache_ok m \<longleftrightarrow>
     (\<forall>key c. cache_values m (key, set c) \<noteq> [] \<longrightarrow>
            value_list_ok (kb m) key c (cache_values m (key, set c)))"

definition count_cache_ok :: "kb_manager \<Rightarrow> bool" where
  "count_cache_ok m \<longleftrightarrow>
     (\<forall>c. cache_count m (set c) \<noteq> [] \<longrightarrow> count_ok (kb m) c (cache_count m (set c)))"

definition cache_ok :: "kb_manager \<Rightarrow> bool" where
  "cache_ok m \<longleftrightarrow> documents_cache_ok m \<and> values_cache_ok m \<and> count_cache_ok m"

text \<open>
  Two auxiliary notions for reasoning about the conflict set: the result of a
  computation read as a set of keys, and the union with the keys found so far.
\<close>

definition as_set :: "error + key list \<Rightarrow> error + key set" where
  "as_set x = (case x of Inl e \<Rightarrow> Inl e | Inr r \<Rightarrow> Inr (set r))"

definition add_keys :: "key set \<Rightarrow> error + key set \<Rightarrow> error + key set" where
  "add_keys A x = (case x of Inl e \<Rightarrow> Inl e | Inr S \<Rightarrow> Inr (A \<union> S))"

text \<open>
  An accumulating step adds a set of keys, which depends on the item only, to the
  set built so far, or raises, which depends on the item only as well.
\<close>

definition accumulates :: "('a \<Rightarrow> key list \<Rightarrow> error + key list) \<Rightarrow> bool" where
  "accumulates f \<longleftrightarrow> (\<forall>x acc. as_set (f x acc) = add_keys (set acc) (as_set (f x [])))"

text \<open>
  The fields of a document of the knowledge base, as \<^verbatim>\<open>_preprocess\<close> of
  src/utils/ieee\_api.py writes them.  A document is a dictionary over these fields.
\<close>

definition DOCUMENT_FIELDS :: "key list" where
  "DOCUMENT_FIELDS =
     [''authors'', ''open_access'', ''document_title'', ''num_citations'', ''publication_title'',
      ''publisher'', ''content_type'', ''publication_year'', ''doi'', ''abstract'']"

definition is_document :: "pydict \<Rightarrow> bool" where
  "is_document doc \<longleftrightarrow> distinct (map fst doc) \<and> fst ` set doc \<subseteq> set DOCUMENT_FIELDS"

text \<open>The document of the scenarios of the specification, and a second one.\<close>

definition doc_D1 :: pydict where
  "doc_D1 =
     [(''doi'', PStr ''D1''), (''authors'', PStr ''Alice Smith''), (''content_type'', PStr ''Journals''),
      (''open_access'', PStr ''Yes''), (''publication_year'', PInt 2020), (''num_citations'', PInt 10)]"

definition doc_D2 :: pydict where
  "doc_D2 =
     [(''doi'', PStr ''D2''), (''authors'', PStr ''Bob Jones''), (''content_type'', PStr ''Books''),
      (''open_access'', PStr ''No''), (''publication_year'', PInt 2015), (''num_citations'', PInt 3)]"

section \<open>State tracker (src/lib/StateTracker.py)\<close>

text \<open>
  An agent action is a string (a special act) or a tuple of strings: \<^verbatim>\<open>(INF, key)\<close>,
  \<^verbatim>\<open>(REQ, key)\<close>, and \<^verbatim>\<open>(INF, key, value)\<close> once the tracker has completed it.  A
  user action is a string (a special act) or the dictionary
  \<^verbatim>\<open>{INF: informs, REQ: requests}\<close>.
\<close>

datatype agt_act = AStr string | ATup "string list"

datatype usr_act = UStr string | UDict pydict "key list"

text \<open>\<^verbatim>\<open>agent_action[i]\<close>: a character of a string, as a string, or a component of a tuple.\<close>

definition act_item :: "agt_act \<Rightarrow> nat \<Rightarrow> error + string" where
  "act_item a i =
     (case a of
        AStr s \<Rightarrow> if i < length s then Inr [s ! i] else Inl IndexError
      | ATup t \<Rightarrow> if i < length t then Inr (t ! i) else Inl IndexError)"

text \<open>\<^verbatim>\<open>agent_action += (value,)\<close>: a tuple is extended; a string and a tuple cannot be added.\<close>

definition act_append :: "agt_act \<Rightarrow> string \<Rightarrow> error + agt_act" where
  "act_append a value = (case a of AStr s \<Rightarrow> Inl TypeError | ATup t \<Rightarrow> Inr (ATup (t @ [value])))"

text \<open>\<^verbatim>\<open>d.update(other)\<close> for dictionaries and \<^verbatim>\<open>s.update(keys)\<close>,
  \<^verbatim>\<open>s.difference_update(keys)\<close>, \<^verbatim>\<open>s.discard(key)\<close> for sets.\<close>

definition dict_update :: "('k \<times> 'v) list \<Rightarrow> ('k \<times> 'v) list \<Rightarrow> ('k \<times> 'v) list" where
  "dict_update d other = fold (\<lambda>(k, v). AList.update k v) other d"

definition set_update :: "'a list \<Rightarrow> 'a list \<Rightarrow> 'a list" where
  "set_update s keys = fold List.insert keys s"

definition set_difference_update :: "'a list \<Rightarrow> 'a list \<Rightarrow> 'a list" where
  "set_difference_update s keys = filter (\<lambda>x. x \<notin> set keys) s"

definition set_discard :: "'a list \<Rightarrow> 'a \<Rightarrow> 'a list" where
  "set_discard s key = removeAll key s"

record state_tracker =
  st_kb_manager :: kb_manager
  st_curr_agt_inf :: pydict
  st_curr_usr_inf :: pydict
  st_curr_constraints :: pydict
  st_curr_usr_req :: "key list"
  st_last_agt_act :: "agt_act option"
  st_last_usr_act :: "usr_act option"

text \<open>\<^verbatim>\<open>StateTracker.__init__\<close> followed by \<^verbatim>\<open>reset\<close>.\<close>

definition st_reset :: "state_tracker \<Rightarrow> state_tracker" where
  "st_reset st =
     st\<lparr>st_curr_agt_inf := [], st_curr_usr_inf := [], st_curr_constraints := [],
        st_curr_usr_req := [], st_last_agt_act := None, st_last_usr_act := None\<rparr>"

definition StateTracker :: "pydict list \<Rightarrow> state_tracker" where
  "StateTracker documents =
     \<lparr>st_kb_manager = KBManager documents, st_curr_agt_inf = [], st_curr_usr_inf = [],
      st_curr_constraints = [], st_curr_usr_req = [], st_last_agt_act = None,
      st_last_usr_act = None\<rparr>"

text \<open>
  \<^verbatim>\<open>
  def _reset_agent_informs(self):
      self._curr_agt_inf = {}
      self._curr_constraints = self._curr_usr_inf.copy()
  \<close>
\<close>

definition st_reset_agent_informs :: "state_tracker \<Rightarrow> state_tracker" where
  "st_reset_agent_informs st =
     st\<lparr>st_curr_agt_inf := [], st_curr_constraints := st_curr_usr_inf st\<rparr>"

text \<open>
  \<^verbatim>\<open>
  if user_action == RJCT:
      self._reset_agent_informs()
  elif user_action not in USR_SPEC_ACTS:
      if get_conflict_keys(user_action[INF], self._curr_agt_inf):
          self._reset_agent_informs()
      self._curr_usr_inf.update(user_action[INF])
      self._curr_constraints.update(user_action[INF])
      self._curr_usr_req.update(user_action[REQ])
  self._last_usr_act = user_action
  \<close>
  Subscripting a string that is no special act with \<^verbatim>\<open>INF\<close> raises \<^verbatim>\<open>TypeError\<close>.
\<close>

definition process_user_action :: "state_tracker \<Rightarrow> usr_act \<Rightarrow> error + state_tracker" where
  "process_user_action st user_action =
     ebind
       (if user_action = UStr RJCT then Inr (st_reset_agent_informs st)
        else
          (case user_action of
             UStr s \<Rightarrow> if s \<in> set USR_SPEC_ACTS then Inr st else Inl TypeError
           | UDict informs requests \<Rightarrow>
               ebind (get_conflict_keys informs (st_curr_agt_inf st)) (\<lambda>ck.
                 let st1 = (if ck \<noteq> [] then st_reset_agent_informs st else st) in
                 Inr (st1\<lparr>st_curr_usr_inf := dict_update (st_curr_usr_inf st1) informs,
                          st_curr_constraints := dict_update (st_curr_constraints st1) informs,
                          st_curr_usr_req := set_update (st_curr_usr_req st1) requests\<rparr>))))
       (\<lambda>st2. Inr (st2\<lparr>st_last_usr_act := Some user_action\<rparr>))"

text \<open>
  \<^verbatim>\<open>
  if agent_action[0] == INF:
      key = agent_action[1]
      self._curr_constraints.pop(key, None)
      value = self._kb_manager.find_matching_value(key, self._curr_constraints)
      if value == NMA:
          if self._curr_agt_inf:
              self._reset_agent_informs()
              agent_action = WCP
          else:
              agent_action = NMA
      else:
          self._curr_agt_inf[key] = value
          self._curr_constraints[key] = value
          agent_action += (value,)
  self._last_agt_act = agent_action
  return agent_action
  \<close>
  The last argument is the random source of \<^verbatim>\<open>find_matching_value\<close>.
\<close>

definition process_agent_action ::
  "state_tracker \<Rightarrow> agt_act \<Rightarrow> nat \<Rightarrow> error + (agt_act \<times> state_tracker)" where
  "process_agent_action st agent_action pick =
     ebind
       (ebind (act_item agent_action 0) (\<lambda>intent.
          if intent = INF_intent
          then ebind (act_item agent_action 1) (\<lambda>key.
                 let constraints = AList.delete key (st_curr_constraints st) in
                 ebind (find_matching_value (st_kb_manager st) key constraints pick) (\<lambda>(value, m').
                   let st1 = st\<lparr>st_kb_manager := m', st_curr_constraints := constraints\<rparr> in
                   if value = NMA
                   then (if st_curr_agt_inf st1 \<noteq> []
                         then Inr (AStr WCP, st_reset_agent_informs st1)
                         else Inr (AStr NMA, st1))
                   else ebind (act_append agent_action value) (\<lambda>completed.
                          Inr (completed,
                               st1\<lparr>st_curr_agt_inf := AList.update key (PStr value) (st_curr_agt_inf st1),
                                   st_curr_constraints := AList.update key (PStr value) constraints\<rparr>))))
          else Inr (agent_action, st)))
       (\<lambda>(returned, st2). Inr (returned, st2\<lparr>st_last_agt_act := Some returned\<rparr>))"

section \<open>Rule-based agent (src/lib/RBAgent.py)\<close>

record rb_agent =
  rb_curr_agt_inf :: pydict
  rb_curr_usr_inf :: pydict
  rb_curr_OWT_inf :: "key list"
  rb_curr_usr_req :: "key list"
  rb_pending_usr_req :: "key list"
  rb_action :: "(string \<times> key) option"

text \<open>\<^verbatim>\<open>RBAgent.reset\<close>; the attribute \<^verbatim>\<open>_action\<close> is not touched by it.\<close>

definition rb_reset :: "rb_agent \<Rightarrow> rb_agent" where
  "rb_reset rb =
     rb\<lparr>rb_curr_agt_inf := [], rb_curr_usr_inf := [], rb_curr_OWT_inf := [],
        rb_curr_usr_req := [], rb_pending_usr_req := []\<rparr>"

definition RBAgent :: rb_agent where
  "RBAgent =
     \<lparr>rb_curr_agt_inf = [], rb_curr_usr_inf = [], rb_curr_OWT_inf = [],
      rb_curr_usr_req = [], rb_pending_usr_req = [], rb_action = None\<rparr>"

text \<open>
  \<^verbatim>\<open>
  def _reset_agent_informs(self):
      self._curr_agt_inf = {}
      self._pending_usr_req = self._curr_usr_req.copy()
  \<close>
\<close>

definition rb_reset_agent_informs :: "rb_agent \<Rightarrow> rb_agent" where
  "rb_reset_agent_informs rb =
     rb\<lparr>rb_curr_agt_inf := [], rb_pending_usr_req := rb_curr_usr_req rb\<rparr>"

text \<open>
  \<^verbatim>\<open>
  if action == WCP:
      self._reset_agent_informs()
  elif action not in AGT_SPEC_ACTS and action[0] == INF:
      self._curr_agt_inf[action[1]] = action[2]
  \<close>
\<close>

definition record_processed_action :: "rb_agent \<Rightarrow> agt_act \<Rightarrow> error + rb_agent" where
  "record_processed_action rb action =
     (if action = AStr WCP then Inr (rb_reset_agent_informs rb)
      else if (case action of AStr s \<Rightarrow> s \<in> set AGT_SPEC_ACTS | ATup _ \<Rightarrow> False) then Inr rb
      else ebind (act_item action 0) (\<lambda>intent.
             if intent = INF_intent
             then ebind (act_item action 1) (\<lambda>key.
                  ebind (act_item action 2) (\<lambda>value.
                    Inr (rb\<lparr>rb_curr_agt_inf := AList.update key (PStr value) (rb_curr_agt_inf rb)\<rparr>)))
             else Inr rb))"

text \<open>
  The random draws of one call of \<^verbatim>\<open>get_action\<close>, named by the line of
  src/lib/RBAgent.py that draws them: \<open>c\<close> for a \<^verbatim>\<open>random.choice\<close>, \<open>r\<close> for the
  outcome of a comparison \<^verbatim>\<open>random.random() < p\<close>.
\<close>

record rb_draws =
  rb_c142 :: nat
  rb_c144 :: nat
  rb_r157 :: bool
  rb_r159 :: bool
  rb_c160 :: nat
  rb_c162 :: nat
  rb_r163 :: bool
  rb_c164 :: nat
  rb_c166 :: nat

text \<open>The first part of \<^verbatim>\<open>get_action\<close>: the user action is processed.\<close>

definition rb_process_user_action :: "rb_agent \<Rightarrow> usr_act \<Rightarrow> error + rb_agent" where
  "rb_process_user_action rb user_action =
     (if user_action = UStr RJCT then Inr (rb_reset_agent_informs rb)
      else
        (case user_action of
           UStr s \<Rightarrow> if s \<in> set USR_SPEC_ACTS then Inr rb else Inl TypeError
         | UDict informs requests \<Rightarrow>
             ebind (get_conflict_keys informs (rb_curr_agt_inf rb)) (\<lambda>ck.
               let rb1 = (if ck \<noteq> [] then rb_reset_agent_informs rb else rb);
                   OWT_keys = map fst (filter (\<lambda>(k, v). v = PStr OWT) informs);
                   not_OWT_keys = map fst (filter (\<lambda>(k, v). v \<noteq> PStr OWT) informs)
               in Inr (rb1\<lparr>rb_curr_usr_inf := dict_update (rb_curr_usr_inf rb1) informs,
                            rb_curr_usr_req :=
                              set_difference_update (set_update (rb_curr_usr_req rb1) requests)
                                (map fst informs),
                            rb_pending_usr_req :=
                              set_difference_update (set_update (rb_pending_usr_req rb1) requests)
                                (map fst informs),
                            rb_curr_OWT_inf :=
                              set_difference_update (set_update (rb_curr_OWT_inf rb1) OWT_keys)
                                not_OWT_keys\<rparr>))))"

text \<open>
  \<^verbatim>\<open>
  already_inf = self._curr_agt_inf | self._curr_usr_inf
  irrelevant_keys = set(already_inf)
  for k in already_inf:
      if k in CONSTRAINED_KEYS_MAPS:
          constraining_keys = [ck for ck, _ in CONSTRAINED_KEYS_MAPS[k]]
          irrelevant_keys.update(constraining_keys)
  \<close>
\<close>

definition irrelevant_keys :: "rb_agent \<Rightarrow> key list" where
  "irrelevant_keys rb =
     (let already_inf = dict_update (rb_curr_agt_inf rb) (rb_curr_usr_inf rb) in
      fold (\<lambda>k irrelevant.
              case map_of CONSTRAINED_KEYS_MAPS k of
                None \<Rightarrow> irrelevant
              | Some cks \<Rightarrow> set_update irrelevant (map fst cks))
           (map fst already_inf) (remdups (map fst already_inf)))"

text \<open>The second part of \<^verbatim>\<open>get_action\<close>: the choice of the action, a pair of an
  intent and a key.\<close>

definition rb_choose_action :: "rb_agent \<Rightarrow> usr_act \<Rightarrow> rb_draws \<Rightarrow> error + (string \<times> key)" where
  "rb_choose_action rb user_action draws =
     (let user_requests = (case user_action of UStr _ \<Rightarrow> [] | UDict _ requests \<Rightarrow> requests) in
      if user_requests \<noteq> []
      then ebind (random_choice user_requests (rb_c142 draws)) (\<lambda>k. Inr (INF_intent, k))
      else if rb_pending_usr_req rb \<noteq> []
      then ebind (random_choice (rb_pending_usr_req rb) (rb_c144 draws)) (\<lambda>k. Inr (INF_intent, k))
      else
        (let irrelevant = irrelevant_keys rb;
             req_keys = filter (\<lambda>k. k \<notin> set irrelevant) AGT_REQ_KEYS;
             inf_keys = filter (\<lambda>k. k \<notin> set irrelevant) AGT_INF_KEYS;
             inf_OWT_keys = filter (\<lambda>k. k \<in> set AGT_INF_KEYS) (rb_curr_OWT_inf rb)
         in if GOAL_KEY \<in> set inf_keys \<and> rb_r157 draws then Inr (INF_intent, GOAL_KEY)
            else if req_keys \<noteq> [] \<and> rb_r159 draws
            then ebind (random_choice req_keys (rb_c160 draws)) (\<lambda>k. Inr (REQ, k))
            else if inf_keys \<noteq> []
            then ebind (random_choice inf_keys (rb_c162 draws)) (\<lambda>k. Inr (INF_intent, k))
            else if inf_OWT_keys \<noteq> [] \<and> rb_r163 draws
            then ebind (random_choice inf_OWT_keys (rb_c164 draws)) (\<lambda>k. Inr (INF_intent, k))
            else ebind (random_choice AGT_REQ_KEYS (rb_c166 draws)) (\<lambda>k. Inr (REQ, k))))"

text \<open>\<^verbatim>\<open>xs.index(x)\<close>: the first position of \<open>x\<close>, or \<^verbatim>\<open>ValueError\<close>.\<close>

fun list_index :: "'a list \<Rightarrow> 'a \<Rightarrow> error + nat" where
  "list_index [] x = Inl ValueError_index"
| "list_index (y # ys) x =
     (if y = x then Inr 0 else ebind (list_index ys x) (\<lambda>i. Inr (Suc i)))"

text \<open>
  \<^verbatim>\<open>get_action(user_action)\<close> returns \<^verbatim>\<open>AGT_ACTS.index(self._action), self._action\<close>;
  the action is the tuple of the intent and the key.
\<close>

definition rb_get_action ::
  "rb_agent \<Rightarrow> usr_act \<Rightarrow> rb_draws \<Rightarrow> error + ((nat \<times> agt_act) \<times> rb_agent)" where
  "rb_get_action rb user_action draws =
     ebind (rb_process_user_action rb user_action) (\<lambda>rb1.
     ebind (rb_choose_action rb1 user_action draws) (\<lambda>action.
       let rb2 = rb1\<lparr>rb_action := Some action\<rparr>;
           rb3 = (if fst action = INF_intent
                  then rb2\<lparr>rb_pending_usr_req := set_discard (rb_pending_usr_req rb2) (snd action)\<rparr>
                  else rb2)
       in ebind (list_index AGT_ACTS action) (\<lambda>index.
            Inr ((index, ATup [fst action, snd action]), rb3))))"

text \<open>A user action built from the configured keys: a special act of the user, or
  informs on user inform keys and requests of user request keys.\<close>

definition configured_usr_act :: "usr_act \<Rightarrow> bool" where
  "configured_usr_act user_action \<longleftrightarrow>
     (case user_action of
        UStr s \<Rightarrow> s \<in> set USR_SPEC_ACTS
      | UDict informs requests \<Rightarrow>
          fst ` set informs \<subseteq> set USR_INF_KEYS \<and> set requests \<subseteq> set USR_REQ_KEYS)"

text \<open>
  The internal states the agent reaches: it is constructed, reset, asked for an action
  on a configured user action, and told the action the tracker has made of its own.
\<close>

inductive rb_reachable :: "rb_agent \<Rightarrow> bool" where
  rb_init: "rb_reachable RBAgent"
| rb_after_reset: "rb_reachable rb \<Longrightarrow> rb_reachable (rb_reset rb)"
| rb_after_get_action:
    "rb_reachable rb \<Longrightarrow> configured_usr_act user_action \<Longrightarrow>
     rb_get_action rb user_action draws = Inr (result, rb') \<Longrightarrow> rb_reachable rb'"
| rb_after_record:
    "rb_reachable rb \<Longrightarrow> record_processed_action rb action = Inr rb' \<Longrightarrow> rb_reachable rb'"

text \<open>The invariant of the reachable states: every recorded user request is a user
  request key.\<close>

definition rb_inv :: "rb_agent \<Rightarrow> bool" where
  "rb_inv rb \<longleftrightarrow>
     set (rb_pending_usr_req rb) \<subseteq> set USR_REQ_KEYS \<and> set (rb_curr_usr_req rb) \<subseteq> set USR_REQ_KEYS"

section \<open>User simulator (src/lib/UserSimulator.py)\<close>

text \<open>A user goal is the dictionary \<^verbatim>\<open>{INF: informs, REQ: requests}\<close> of the goals file.\<close>

record goal =
  goal_INF :: pydict
  goal_REQ :: "key list"

record user_simulator =
  us_goals :: "goal list"
  patience :: int
  us_kb_manager :: kb_manager
  us_goal :: goal
  us_action :: usr_act
  us_curr_agt_inf :: pydict
  us_already_matched_inf :: "key list"
  us_not_sent_inf :: "key list"
  us_not_answ_req :: "key list"
  us_round :: int
  us_satisfied :: bool

text \<open>
  The random draws, named by the line of src/lib/UserSimulator.py that draws them:
  \<open>c\<close> for a \<^verbatim>\<open>random.choice\<close>, \<open>r\<close> for the outcome of a comparison
  \<^verbatim>\<open>random.random() < p\<close>.
\<close>

record us_draws =
  us_r165 :: bool
  us_c166 :: nat
  us_r169 :: bool
  us_r174 :: bool
  us_c175 :: nat
  us_c198 :: nat
  us_r199 :: bool
  us_r261 :: bool
  us_r265 :: bool
  us_r272 :: bool
  us_c273 :: nat

text \<open>\<^verbatim>\<open>d[key]\<close> raises \<^verbatim>\<open>KeyError\<close> on a missing key.\<close>

definition dict_get :: "(key \<times> 'v) list \<Rightarrow> key \<Rightarrow> error + 'v" where
  "dict_get d k = (case map_of d k of None \<Rightarrow> Inl (KeyError k) | Some v \<Rightarrow> Inr v)"

text \<open>
  \<^verbatim>\<open>
  self._goal = random.choice(self._goals)
  self._curr_agt_inf = {}
  self._already_matched_inf = set()
  self._not_sent_inf = set(self._goal[INF])
  self._not_answ_req = set(self._goal[REQ] + [GOAL_KEY])
  self._satisfied = False
  self._round = 0
  \<close>
\<close>

definition us_reset :: "user_simulator \<Rightarrow> nat \<Rightarrow> error + user_simulator" where
  "us_reset us c98 =
     ebind (random_choice (us_goals us) c98) (\<lambda>g.
       Inr (us\<lparr>us_goal := g, us_curr_agt_inf := [], us_already_matched_inf := [],
               us_not_sent_inf := remdups (map fst (goal_INF g)),
               us_not_answ_req := remdups (goal_REQ g @ [GOAL_KEY]),
               us_satisfied := False, us_round := 0\<rparr>))"

text \<open>\<^verbatim>\<open>UserSimulator.__init__\<close>, with the loaded goals and documents in place of the
  files; the attribute \<^verbatim>\<open>_action\<close> exists only once \<^verbatim>\<open>step\<close> has run and is the
  empty action until then.\<close>

definition UserSimulator :: "goal list \<Rightarrow> pydict list \<Rightarrow> int \<Rightarrow> nat \<Rightarrow> error + user_simulator" where
  "UserSimulator goals documents p c98 =
     us_reset \<lparr>us_goals = goals, patience = p, us_kb_manager = KBManager documents,
               us_goal = \<lparr>goal_INF = [], goal_REQ = []\<rparr>, us_action = UDict [] [],
               us_curr_agt_inf = [], us_already_matched_inf = [], us_not_sent_inf = [],
               us_not_answ_req = [], us_round = 0, us_satisfied = False\<rparr> c98"

text \<open>\<^verbatim>\<open>_filter_req_keys(keys)\<close>\<close>

definition filter_req_keys :: "user_simulator \<Rightarrow> key list \<Rightarrow> key list" where
  "filter_req_keys us keys =
     (if us_curr_agt_inf us \<noteq> [] then keys
      else filter (\<lambda>k. k \<notin> set USRSIM_REQ_ONLY_AFTER_AGT_INF) keys)"

text \<open>
  \<^verbatim>\<open>
  self._curr_agt_inf = {}
  self._not_answ_req = set(self._goal[REQ] + [GOAL_KEY])
  self._not_sent_inf.update(self._already_matched_inf)
  self._already_matched_inf = set()
  \<close>
\<close>

definition us_reset_agent_informs :: "user_simulator \<Rightarrow> user_simulator" where
  "us_reset_agent_informs us =
     us\<lparr>us_curr_agt_inf := [],
        us_not_answ_req := remdups (goal_REQ (us_goal us) @ [GOAL_KEY]),
        us_not_sent_inf := set_update (us_not_sent_inf us) (us_already_matched_inf us),
        us_already_matched_inf := []\<rparr>"

text \<open>\<^verbatim>\<open>self._action[REQ].append(key)\<close> and \<^verbatim>\<open>self._action[INF][key] = value\<close>; a
  string cannot be subscripted with \<^verbatim>\<open>REQ\<close> or \<^verbatim>\<open>INF\<close>.\<close>

definition action_add_request :: "usr_act \<Rightarrow> key \<Rightarrow> error + usr_act" where
  "action_add_request a key =
     (case a of UStr _ \<Rightarrow> Inl TypeError | UDict informs requests \<Rightarrow> Inr (UDict informs (requests @ [key])))"

definition action_set_inform :: "usr_act \<Rightarrow> key \<Rightarrow> pyval \<Rightarrow> error + usr_act" where
  "action_set_inform a key value =
     (case a of UStr _ \<Rightarrow> Inl TypeError
      | UDict informs requests \<Rightarrow> Inr (UDict (AList.update key value informs) requests))"

text \<open>\<^verbatim>\<open>self._action[INF][key] = self._goal[INF][key]\<close>\<close>

definition inform_goal_value :: "user_simulator \<Rightarrow> key \<Rightarrow> error + user_simulator" where
  "inform_goal_value us key =
     ebind (dict_get (goal_INF (us_goal us)) key) (\<lambda>value.
     ebind (action_set_inform (us_action us) key value) (\<lambda>a.
     Inr (us\<lparr>us_action := a\<rparr>)))"

definition request_key :: "user_simulator \<Rightarrow> key \<Rightarrow> error + user_simulator" where
  "request_key us key =
     ebind (action_add_request (us_action us) key) (\<lambda>a. Inr (us\<lparr>us_action := a\<rparr>))"

text \<open>
  \<^verbatim>\<open>
  requestable_keys = self._filter_req_keys(list(self._not_answ_req))
  if self._not_sent_inf and random.random() < 2 / 3:
      key = random.choice(list(self._not_sent_inf))
      if key in self._filter_req_keys(USR_REQ_KEYS) and random.random() < 1 / 2:
          self._action[REQ].append(key)
      else:
          self._action[INF][key] = self._goal[INF][key]
  elif requestable_keys and random.random() < 2 / 3:
      self._action[REQ].append(random.choice(requestable_keys))
  else:
      self._action = THX
  \<close>
\<close>

definition pick_random_action :: "user_simulator \<Rightarrow> us_draws \<Rightarrow> error + user_simulator" where
  "pick_random_action us d =
     (let requestable_keys = filter_req_keys us (us_not_answ_req us) in
      if us_not_sent_inf us \<noteq> [] \<and> us_r165 d
      then ebind (random_choice (us_not_sent_inf us) (us_c166 d)) (\<lambda>key.
             if key \<in> set (filter_req_keys us USR_REQ_KEYS) \<and> us_r169 d
             then request_key us key
             else inform_goal_value us key)
      else if requestable_keys \<noteq> [] \<and> us_r174 d
      then ebind (random_choice requestable_keys (us_c175 d)) (request_key us)
      else Inr (us\<lparr>us_action := UStr THX\<rparr>))"

text \<open>Unpacking an agent action into three, or two, names.\<close>

definition unpack3 :: "agt_act \<Rightarrow> error + (string \<times> string \<times> string)" where
  "unpack3 a =
     (case a of
        ATup [x, y, z] \<Rightarrow> Inr (x, y, z)
      | ATup _ \<Rightarrow> Inl ValueError_unpack
      | AStr [x, y, z] \<Rightarrow> Inr ([x], [y], [z])
      | AStr _ \<Rightarrow> Inl ValueError_unpack)"

definition unpack2 :: "agt_act \<Rightarrow> error + (string \<times> string)" where
  "unpack2 a =
     (case a of
        ATup [x, y] \<Rightarrow> Inr (x, y)
      | ATup _ \<Rightarrow> Inl ValueError_unpack
      | AStr [x, y] \<Rightarrow> Inr ([x], [y])
      | AStr _ \<Rightarrow> Inl ValueError_unpack)"

text \<open>
  \<^verbatim>\<open>[ck for ck, _ in CONSTRAINED_KEYS_MAPS[key] if ck in self._goal[INF]]
     if key in CONSTRAINED_KEYS_MAPS else []\<close>
\<close>

definition goal_constraining_keys :: "user_simulator \<Rightarrow> key \<Rightarrow> key list" where
  "goal_constraining_keys us key =
     (case map_of CONSTRAINED_KEYS_MAPS key of
        None \<Rightarrow> []
      | Some cks \<Rightarrow> filter (\<lambda>ck. ck \<in> fst ` set (goal_INF (us_goal us))) (map fst cks))"

text \<open>
  \<^verbatim>\<open>_response_to_inform(agent_action)\<close>:
  \<^verbatim>\<open>
  _, inf_key, inf_value = agent_action
  inf_dict = {inf_key: inf_value}
  conflict_keys = get_conflict_keys(inf_dict, self._goal[INF])
  if conflict_keys:
      self._reset_agent_informs()
      self._not_sent_inf.update(conflict_keys)
      key = random.choice(list(conflict_keys))
      if random.random() < 1 / 2:
          self._action[INF][key] = self._goal[INF][key]
      else:
          self._action = RJCT
  else:
      if inf_key in self._curr_agt_inf and self._curr_agt_inf[inf_key] != inf_value:
          self._reset_agent_informs()
      constraining_keys = ...
      self._already_matched_inf.update(constraining_keys)
      self._not_sent_inf.difference_update(constraining_keys)
      if inf_key in self._goal[INF] and inf_key in self._not_sent_inf:
          self._already_matched_inf.add(inf_key)
      self._not_sent_inf.discard(inf_key)
      self._not_answ_req.discard(inf_key)
      self._curr_agt_inf[inf_key] = inf_value
      self._satisfied = not (self._not_answ_req | self._not_sent_inf)
      self._pick_random_action()
  \<close>
\<close>

definition accept_inform :: "user_simulator \<Rightarrow> key \<Rightarrow> string \<Rightarrow> user_simulator" where
  "accept_inform us inf_key inf_value =
     (let us1 = (case map_of (us_curr_agt_inf us) inf_key of
                   None \<Rightarrow> us
                 | Some v \<Rightarrow> if v \<noteq> PStr inf_value then us_reset_agent_informs us else us);
          constraining_keys = goal_constraining_keys us1 inf_key;
          us2 = us1\<lparr>us_already_matched_inf := set_update (us_already_matched_inf us1) constraining_keys,
                    us_not_sent_inf := set_difference_update (us_not_sent_inf us1) constraining_keys\<rparr>;
          us3 = (if inf_key \<in> fst ` set (goal_INF (us_goal us2)) \<and> inf_key \<in> set (us_not_sent_inf us2)
                 then us2\<lparr>us_already_matched_inf := List.insert inf_key (us_already_matched_inf us2)\<rparr>
                 else us2);
          us4 = us3\<lparr>us_not_sent_inf := set_discard (us_not_sent_inf us3) inf_key,
                    us_not_answ_req := set_discard (us_not_answ_req us3) inf_key,
                    us_curr_agt_inf := AList.update inf_key (PStr inf_value) (us_curr_agt_inf us3)\<rparr>
      in us4\<lparr>us_satisfied := (us_not_answ_req us4 = [] \<and> us_not_sent_inf us4 = [])\<rparr>)"

definition response_to_inform :: "user_simulator \<Rightarrow> agt_act \<Rightarrow> us_draws \<Rightarrow> error + user_simulator" where
  "response_to_inform us agent_action d =
     ebind (unpack3 agent_action) (\<lambda>(_, inf_key, inf_value).
     ebind (get_conflict_keys [(inf_key, PStr inf_value)] (goal_INF (us_goal us))) (\<lambda>conflict_keys.
       if conflict_keys \<noteq> []
       then (let us1 = us_reset_agent_informs us;
                 us2 = us1\<lparr>us_not_sent_inf := set_update (us_not_sent_inf us1) conflict_keys\<rparr>
             in ebind (random_choice conflict_keys (us_c198 d)) (\<lambda>key.
                  if us_r199 d then inform_goal_value us2 key
                  else Inr (us2\<lparr>us_action := UStr RJCT\<rparr>)))
       else pick_random_action (accept_inform us inf_key inf_value) d))"

text \<open>
  \<^verbatim>\<open>_response_to_request(agent_action)\<close>, with its four cases in the order of the
  source; in the second case the goal holds every active constraining key.
\<close>

definition response_to_request :: "user_simulator \<Rightarrow> agt_act \<Rightarrow> us_draws \<Rightarrow> error + user_simulator" where
  "response_to_request us agent_action d =
     ebind (unpack2 agent_action) (\<lambda>(_, req_key).
       let active_constraining_keys = goal_constraining_keys us req_key in
       if req_key \<in> fst ` set (goal_INF (us_goal us)) then inform_goal_value us req_key
       else if active_constraining_keys \<noteq> []
       then efold (\<lambda>ack us'. inform_goal_value us' ack) active_constraining_keys us
       else if req_key \<in> set (goal_REQ (us_goal us))
       then (if req_key \<in> fst ` set (us_curr_agt_inf us) \<and> us_r261 d
             then ebind (dict_get (us_curr_agt_inf us) req_key) (\<lambda>v.
                  ebind (action_set_inform (us_action us) req_key v) (\<lambda>a.
                  Inr (us\<lparr>us_action := a\<rparr>)))
             else if req_key \<in> set (filter_req_keys us (goal_REQ (us_goal us))) \<and> us_r265 d
             then request_key us req_key
             else ebind (action_set_inform (us_action us) req_key (PStr OWT)) (\<lambda>a.
                  Inr (us\<lparr>us_action := a\<rparr>)))
       else ebind (action_set_inform (us_action us) req_key (PStr OWT)) (\<lambda>a.
              let us1 = us\<lparr>us_action := a\<rparr> in
              if us_not_sent_inf us1 \<noteq> [] \<and> us_r272 d
              then ebind (random_choice (us_not_sent_inf us1) (us_c273 d)) (inform_goal_value us1)
              else Inr us1))"

text \<open>
  \<^verbatim>\<open>get_init_action()\<close>; the two arguments are the draws of its two
  \<^verbatim>\<open>random.choice\<close> calls.
\<close>

definition get_init_action ::
  "user_simulator \<Rightarrow> nat \<Rightarrow> nat \<Rightarrow> error + (usr_act \<times> user_simulator)" where
  "get_init_action us c303 c313 =
     (let compulsory = fold (\<lambda>key informs.
                              case map_of (goal_INF (us_goal us)) key of
                                None \<Rightarrow> informs
                              | Some v \<Rightarrow> AList.update key v informs)
                         USRSIM_INIT_INF [] in
      ebind (if compulsory \<noteq> [] then Inr compulsory
             else ebind (random_choice (goal_INF (us_goal us)) c303) (\<lambda>item. Inr [item]))
        (\<lambda>informs.
          let us1 = us\<lparr>us_not_sent_inf := set_difference_update (us_not_sent_inf us) (map fst informs)\<rparr>;
              requestable_keys = filter_req_keys us1 (goal_REQ (us_goal us1))
          in if requestable_keys \<noteq> []
             then ebind (random_choice requestable_keys c313) (\<lambda>k. Inr (UDict informs [k], us1))
             else Inr (UDict informs [], us1)))"

text \<open>
  \<^verbatim>\<open>step(agent_action)\<close> in its parts.  First the round is counted, the action
  is emptied and the agent action is answered:
  \<^verbatim>\<open>
  self._round += 1
  self._action = {INF: {}, REQ: []}
  if agent_action == WCP:
      self._reset_agent_informs()
      self._pick_random_action()
  elif agent_action[0] == INF:
      self._response_to_inform(agent_action)
  elif agent_action[0] == REQ:
      self._response_to_request(agent_action)
  \<close>
\<close>

definition us_respond :: "user_simulator \<Rightarrow> agt_act \<Rightarrow> us_draws \<Rightarrow> error + user_simulator" where
  "us_respond us agent_action d =
     (let us0 = us\<lparr>us_round := us_round us + 1, us_action := UDict [] []\<rparr> in
      if agent_action = AStr WCP then pick_random_action (us_reset_agent_informs us0) d
      else ebind (act_item agent_action 0) (\<lambda>intent.
             if intent = INF_intent then response_to_inform us0 agent_action d
             else if intent = REQ then response_to_request us0 agent_action d
             else Inr us0))"

text \<open>
  Then the end of the episode is decided and the goal proposal is checked:
  \<^verbatim>\<open>
  if agent_action == NMA:
      done = True
      self._satisfied = False
  else:
      done = self._round == self.patience or self._satisfied
      self._satisfied = (
          self._satisfied
          and self._kb_manager.check_goal_proposal_consistency(
              self._curr_agt_inf[GOAL_KEY], self._goal[INF])
          and self._kb_manager.check_goal_proposal_consistency(
              self._curr_agt_inf[GOAL_KEY], self._curr_agt_inf))
  \<close>
  The result is the flag \<^verbatim>\<open>done\<close> and the simulator.
\<close>

definition us_recheck :: "user_simulator \<Rightarrow> agt_act \<Rightarrow> error + (bool \<times> user_simulator)" where
  "us_recheck us agent_action =
     (if agent_action = AStr NMA then Inr (True, us\<lparr>us_satisfied := False\<rparr>)
      else
        (let is_done = (us_round us = patience us \<or> us_satisfied us) in
         if us_satisfied us
         then ebind (dict_get (us_curr_agt_inf us) GOAL_KEY) (\<lambda>proposal.
              ebind (check_goal_proposal_consistency (us_kb_manager us) proposal
                       (goal_INF (us_goal us))) (\<lambda>(ok1, m1).
                if ok1
                then ebind (dict_get (us_curr_agt_inf us) GOAL_KEY) (\<lambda>proposal'.
                     ebind (check_goal_proposal_consistency m1 proposal' (us_curr_agt_inf us))
                       (\<lambda>(ok2, m2).
                         Inr (is_done, us\<lparr>us_satisfied := ok2, us_kb_manager := m2\<rparr>)))
                else Inr (is_done, us\<lparr>us_satisfied := False, us_kb_manager := m1\<rparr>)))
         else Inr (is_done, us\<lparr>us_satisfied := False\<rparr>)))"

text \<open>
  \<^verbatim>\<open>
  if not done and self._action not in USR_SPEC_ACTS:
      for key in self._action[INF]:
          self._not_sent_inf.discard(key)
  \<close>
\<close>

definition us_mark_sent :: "user_simulator \<Rightarrow> bool \<Rightarrow> error + user_simulator" where
  "us_mark_sent us is_done =
     (if is_done then Inr us
      else
        (case us_action us of
           UStr s \<Rightarrow> if s \<in> set USR_SPEC_ACTS then Inr us else Inl TypeError
         | UDict informs requests \<Rightarrow>
             Inr (us\<lparr>us_not_sent_inf := set_difference_update (us_not_sent_inf us) (map fst informs)\<rparr>)))"

text \<open>
  Python's \<^verbatim>\<open>round\<close> of a number to an integer rounds a half to the even neighbour.
  The ratios of the reward are floating-point numbers in the source; here they are
  exact rationals.
\<close>

definition py_round :: "rat \<Rightarrow> int" where
  "py_round x =
     (let f = \<lfloor>x\<rfloor>; frac = x - of_int f in
      if frac < 1 / 2 then f
      else if frac > 1 / 2 then f + 1
      else if even f then f else f + 1)"

text \<open>
  \<^verbatim>\<open>
  if not done:
      reward = -1
  elif self._satisfied:
      goal_complexity = len(self._goal[REQ]) + len(self._goal[INF])
      reward = (2 * self.patience + goal_complexity)
  else:
      n_not_answ_reqs = len(self._not_answ_req)
      not_answered_ratio = n_not_answ_reqs / (len(self._goal[REQ]) + 1)
      n_not_sent_infs = len(self._not_sent_inf)
      not_informed_ratio = n_not_sent_infs / len(self._goal[INF])
      weight = not_answered_ratio + not_informed_ratio
      reward = - round(weight * self.patience)
  \<close>
\<close>

definition us_weight :: "user_simulator \<Rightarrow> rat" where
  "us_weight us =
     of_nat (length (us_not_answ_req us)) / of_nat (length (goal_REQ (us_goal us)) + 1)
     + of_nat (length (us_not_sent_inf us)) / of_nat (length (goal_INF (us_goal us)))"

definition us_reward :: "user_simulator \<Rightarrow> bool \<Rightarrow> error + int" where
  "us_reward us is_done =
     (if \<not> is_done then Inr (- 1)
      else if us_satisfied us
      then Inr (2 * patience us + (int (length (goal_REQ (us_goal us))) + int (length (goal_INF (us_goal us)))))
      else if length (goal_INF (us_goal us)) = 0 then Inl ZeroDivisionError
      else Inr (- py_round (us_weight us * of_int (patience us))))"

text \<open>\<^verbatim>\<open>step\<close> returns \<^verbatim>\<open>self._action, reward, done, self._satisfied\<close>.\<close>

definition us_step ::
  "user_simulator \<Rightarrow> agt_act \<Rightarrow> us_draws \<Rightarrow> error + ((usr_act \<times> int \<times> bool \<times> bool) \<times> user_simulator)" where
  "us_step us agent_action d =
     ebind (us_respond us agent_action d) (\<lambda>us1.
     ebind (us_recheck us1 agent_action) (\<lambda>(is_done, us2).
     ebind (us_mark_sent us2 is_done) (\<lambda>us3.
     ebind (us_reward us3 is_done) (\<lambda>reward.
     Inr ((us_action us3, reward, is_done, us_satisfied us3), us3)))))"

text \<open>
  The states of an episode, as \<^verbatim>\<open>run_episode\<close> of src/run.py runs it: the simulator
  is reset, asked for its initial action, and stepped while the last step has not
  reported the end (\<^verbatim>\<open>while not done\<close>).  The flag is the \<^verbatim>\<open>done\<close> of the last
  step.
\<close>

inductive us_episode :: "user_simulator \<Rightarrow> bool \<Rightarrow> bool" where
  ep_reset: "us_reset us c98 = Inr us' \<Longrightarrow> us_episode us' False"
| ep_init: "us_episode us False \<Longrightarrow> get_init_action us c303 c313 = Inr (a, us') \<Longrightarrow>
            us_episode us' False"
| ep_step: "us_episode us False \<Longrightarrow>
            us_step us agent_action d = Inr ((a, reward, is_done, sat), us') \<Longrightarrow>
            us_episode us' is_done"

text \<open>
  The reward of an unsatisfied end as the specification writes it: the weight is
  rounded first and then multiplied by the patience.  It is the formula of the claim,
  to be compared with \<open>us_reward\<close>, which is the formula of the source.
\<close>

definition spec_unsatisfied_reward :: "user_simulator \<Rightarrow> int" where
  "spec_unsatisfied_reward us = - py_round (us_weight us) * patience us"

text \<open>
  An episode with patience 2 on the goal \<^verbatim>\<open>{INF: {authors: "Alice", publisher: "IEEE"},
  REQ: []}\<close>: the simulator informs the authors, and the agent requests the keywords
  twice; every comparison of a random number fails and every choice takes the first
  element.
\<close>

definition example_goal :: goal where
  "example_goal = \<lparr>goal_INF = [(''authors'', PStr ''Alice''), (''publisher'', PStr ''IEEE'')],
                    goal_REQ = []\<rparr>"

definition example_draws :: us_draws where
  "example_draws =
     \<lparr>us_r165 = False, us_c166 = 0, us_r169 = False, us_r174 = False, us_c175 = 0, us_c198 = 0,
      us_r199 = False, us_r261 = False, us_r265 = False, us_r272 = False, us_c273 = 0\<rparr>"

definition example_start :: "error + user_simulator" where
  "example_start =
     ebind (UserSimulator [example_goal] [doc_D1] 2 0) (\<lambda>us.
     ebind (get_init_action us 0 0) (\<lambda>(a, us1).
     ebind (us_step us1 (ATup [REQ, ''keywords'']) example_draws) (\<lambda>(r, us2). Inr us2)))"

definition example_last_step ::
  "error + ((usr_act \<times> int \<times> bool \<times> bool) \<times> user_simulator)" where
  "example_last_step =
     ebind example_start (\<lambda>us. us_step us (ATup [REQ, ''keywords'']) example_draws)"

text \<open>The goal key is in the requests still open or among the agent informs.\<close>

definition goal_key_tracked :: "user_simulator \<Rightarrow> bool" where
  "goal_key_tracked us \<longleftrightarrow>
     GOAL_KEY \<in> set (us_not_answ_req us) \<or> GOAL_KEY \<in> fst ` set (us_curr_agt_inf us)"

text \<open>
  An episode with patience 15 on the goal \<^verbatim>\<open>{INF: {authors: "Alice"}, REQ: []}\<close> and the
  knowledge base of the one document \<open>doc_D1\<close>: the simulator informs the authors, and
  the agent proposes the identifier of the document.
\<close>

definition example_goal2 :: goal where
  "example_goal2 = \<lparr>goal_INF = [(''authors'', PStr ''Alice'')], goal_REQ = []\<rparr>"

definition example_ready :: "error + user_simulator" where
  "example_ready =
     ebind (UserSimulator [example_goal2] [doc_D1] 15 0) (\<lambda>us.
     ebind (get_init_action us 0 0) (\<lambda>(a, us1). Inr us1))"

definition example_success ::
  "error + ((usr_act \<times> int \<times> bool \<times> bool) \<times> user_simulator)" where
  "example_success =
     ebind example_ready (\<lambda>us. us_step us (ATup [INF_intent, ''doi'', ''D1'']) example_draws)"

section \<open>Dialogue manager: the two experience buffers\<close>

text \<open>
  \<^verbatim>\<open>DialogueManager\<close> (src/lib/DialogueManager.py) owns two Python lists,
  \<^verbatim>\<open>_warmup_mem\<close> and \<^verbatim>\<open>_rl_mem\<close>, and their configured sizes.  The record
  below keeps exactly the attributes that \<^verbatim>\<open>add_experience\<close> reads or writes; the
  state tracker and the two agents are not touched by it.  An experience is the
  tuple \<^verbatim>\<open>(state, action, reward, next_state, done)\<close>; the state vectors are
  left polymorphic.  The sizes are Python integers.
\<close>

type_synonym 's experience = "'s \<times> nat \<times> int \<times> 's \<times> bool"

record 's dialogue_manager =
  rl_mem :: "'s experience list"
  rl_mem_size :: int
  warmup_mem :: "'s experience list"
  warmup_mem_size :: int

text \<open>
  \<^verbatim>\<open>
  if (len(self._warmup_mem) == self.warmup_mem_size and warmup
      or len(self._rl_mem) == self.rl_mem_size and not warmup):
      return True
  if warmup: self._warmup_mem.append((state, action, reward, next_state, done))
  else:      self._rl_mem.append((state, action, reward, next_state, done))
  return False
  \<close>
  The model returns the signal together with the updated manager.
\<close>

definition add_experience ::
  "'s dialogue_manager \<Rightarrow> 's \<Rightarrow> nat \<Rightarrow> int \<Rightarrow> 's \<Rightarrow> bool \<Rightarrow> bool \<Rightarrow> bool \<times> 's dialogue_manager" where
  "add_experience dm state action reward next_state done warmup =
     (if (int (length (warmup_mem dm)) = warmup_mem_size dm \<and> warmup)
         \<or> (int (length (rl_mem dm)) = rl_mem_size dm \<and> \<not> warmup)
      then (True, dm)
      else if warmup
        then (False, dm\<lparr>warmup_mem := warmup_mem dm @ [(state, action, reward, next_state, done)]\<rparr>)
        else (False, dm\<lparr>rl_mem := rl_mem dm @ [(state, action, reward, next_state, done)]\<rparr>))"

text \<open>A sequence of calls; each call is the experience together with the warm-up flag.\<close>

fun add_experiences ::
  "'s dialogue_manager \<Rightarrow> ('s experience \<times> bool) list \<Rightarrow> 's dialogue_manager" where
  "add_experiences dm [] = dm"
| "add_experiences dm (((s, a, r, s', d), w) # calls) =
     add_experiences (snd (add_experience dm s a r s' d w)) calls"

definition within_capacity :: "'s dialogue_manager \<Rightarrow> bool" where
  "within_capacity dm \<longleftrightarrow>
     int (length (warmup_mem dm)) \<le> warmup_mem_size dm
     \<and> int (length (rl_mem dm)) \<le> rl_mem_size dm"

section \<open>Learning agent (src/lib/RLAgent.py): training\<close>

text \<open>
  The value network is a Keras model.  What \<^verbatim>\<open>train\<close> does with it is kept; the
  network itself is a parameter: \<open>predict net s\<close> is the row of action values that
  \<^verbatim>\<open>net.predict\<close> yields for the state \<open>s\<close>, and \<open>fit net examples\<close> is the network
  after \<^verbatim>\<open>net.fit(s, q, epochs=1)\<close> on the states and target rows of a batch.  A
  network is a value, so the clone of the behaviour network
  (\<^verbatim>\<open>clone_model\<close> and \<^verbatim>\<open>set_weights\<close>) is that value itself, which later calls of
  \<open>fit\<close> do not change.  The floating-point numbers of the source are exact rationals
  here.
\<close>

record 'net rl_agent =
  gamma :: rat
  epsilon :: rat
  epsilon_decay :: rat
  vanilla :: bool
  batch_size :: int
  beh_model :: 'net

text \<open>\<^verbatim>\<open>RLAgent.__init__\<close> with the default values of its parameters, for a given
  network and initial epsilon.\<close>

definition RLAgent :: "'net \<Rightarrow> rat \<Rightarrow> 'net rl_agent" where
  "RLAgent net init_epsilon =
     \<lparr>gamma = 9 / 10, epsilon = init_epsilon, epsilon_decay = 99 / 100, vanilla = True,
      batch_size = 256, beh_model = net\<rparr>"

text \<open>
  \<^verbatim>\<open>[experience_set[i : i + self.batch_size]
     for i in range(0, len(experience_set), self.batch_size)]\<close>:
  \<^verbatim>\<open>range\<close> raises for the step 0 and is empty for a negative step.
\<close>

function chop :: "nat \<Rightarrow> 'a list \<Rightarrow> 'a list list" where
  "chop n xs = (if n = 0 \<or> xs = [] then [] else take n xs # chop n (drop n xs))"
  by pat_completeness auto
termination
  by (relation "measure (\<lambda>(n, xs). length xs)") auto

definition make_batches :: "int \<Rightarrow> 'a list \<Rightarrow> error + 'a list list" where
  "make_batches step xs =
     (if step = 0 then Inl ValueError_range
      else if step < 0 then Inr []
      else Inr (chop (nat step) xs))"

text \<open>\<^verbatim>\<open>np.amax(row)\<close> and \<^verbatim>\<open>np.argmax(row)\<close>, the first position of the maximum.\<close>

definition amax :: "rat list \<Rightarrow> error + rat" where
  "amax row = (if row = [] then Inl ValueError_empty else Inr (foldl max (hd row) (tl row)))"

definition argmax :: "rat list \<Rightarrow> error + nat" where
  "argmax row = ebind (amax row) (list_index row)"

text \<open>
  The value of the next state:
  \<^verbatim>\<open>
  v_prime = (np.amax(tar_q_prime[i]) if self.vanilla
             else tar_q_prime[i][np.argmax(beh_q_prime[i])])
  v_prime *= not d
  \<close>
\<close>

definition next_state_value :: "bool \<Rightarrow> rat list \<Rightarrow> rat list \<Rightarrow> bool \<Rightarrow> error + rat" where
  "next_state_value is_vanilla tar_row beh_row d =
     ebind (if is_vanilla then amax tar_row
            else ebind (argmax beh_row) (\<lambda>i.
                   if i < length tar_row then Inr (tar_row ! i) else Inl IndexError))
       (\<lambda>v_prime. Inr (if d then 0 else v_prime))"

text \<open>\<^verbatim>\<open>q[i][a] = r + self.gamma * v_prime\<close>\<close>

definition target_row ::
  "bool \<Rightarrow> rat \<Rightarrow> rat list \<Rightarrow> rat list \<Rightarrow> rat list \<Rightarrow> nat \<Rightarrow> int \<Rightarrow> bool \<Rightarrow> error + rat list" where
  "target_row is_vanilla g q_row tar_row beh_row a r d =
     ebind (next_state_value is_vanilla tar_row beh_row d) (\<lambda>v_prime.
       if a < length q_row then Inr (q_row[a := of_int r + g * v_prime]) else Inl IndexError)"

text \<open>
  One batch: the action values of the states come from the behaviour network, the
  values of the next states from the target network and, unless vanilla, from the
  behaviour network; the behaviour network is then fitted to the target rows.
\<close>

definition train_batch ::
  "('net \<Rightarrow> 's \<Rightarrow> rat list) \<Rightarrow> ('net \<Rightarrow> ('s \<times> rat list) list \<Rightarrow> 'net) \<Rightarrow>
   bool \<Rightarrow> rat \<Rightarrow> 'net \<Rightarrow> 'net \<Rightarrow> 's experience list \<Rightarrow> error + 'net" where
  "train_batch predict fit is_vanilla g tar_model beh batch =
     ebind (emap (\<lambda>(s, a, r, s', d).
                    ebind (target_row is_vanilla g (predict beh s) (predict tar_model s')
                             (predict beh s') a r d) (\<lambda>row. Inr (s, row)))
                 batch) (\<lambda>examples.
       Inr (fit beh examples))"

fun train_batches ::
  "('net \<Rightarrow> 's \<Rightarrow> rat list) \<Rightarrow> ('net \<Rightarrow> ('s \<times> rat list) list \<Rightarrow> 'net) \<Rightarrow>
   bool \<Rightarrow> rat \<Rightarrow> 'net \<Rightarrow> 'net \<Rightarrow> 's experience list list \<Rightarrow> error + 'net" where
  "train_batches predict fit is_vanilla g tar_model beh [] = Inr beh"
| "train_batches predict fit is_vanilla g tar_model beh (batch # batches) =
     ebind (train_batch predict fit is_vanilla g tar_model beh batch) (\<lambda>beh'.
       train_batches predict fit is_vanilla g tar_model beh' batches)"

text \<open>
  \<^verbatim>\<open>train(experience_set)\<close>; \<open>shuffle\<close> is the permutation that \<^verbatim>\<open>random.shuffle\<close>
  draws.
  \<^verbatim>\<open>
  tar_model = clone_model(self._beh_model)
  tar_model.set_weights(self._beh_model.get_weights())
  random.shuffle(experience_set)
  batches = [...]
  for batch in tqdm(batches): ...
  self.epsilon *= self.epsilon_decay
  \<close>
\<close>

definition train ::
  "('net \<Rightarrow> 's \<Rightarrow> rat list) \<Rightarrow> ('net \<Rightarrow> ('s \<times> rat list) list \<Rightarrow> 'net) \<Rightarrow>
   ('s experience list \<Rightarrow> 's experience list) \<Rightarrow>
   'net rl_agent \<Rightarrow> 's experience list \<Rightarrow> error + 'net rl_agent" where
  "train predict fit shuffle agent experience_set =
     (let tar_model = beh_model agent in
      ebind (make_batches (batch_size agent) (shuffle experience_set)) (\<lambda>batches.
      ebind (train_batches predict fit (vanilla agent) (gamma agent) tar_model (beh_model agent)
               batches) (\<lambda>beh'.
        Inr (agent\<lparr>beh_model := beh', epsilon := epsilon agent * epsilon_decay agent\<rparr>))))"

text \<open>
  The target of the specification for the taken action, the Double-DQN target:
  \<open>reward + \<gamma> * targetValue (next_state, argmax\<^sub>a behaviorValue (next_state, a))\<close> when not
  terminal, the reward when terminal.  It follows the words of the specification, to be
  compared with \<open>target_row\<close>.
\<close>

definition spec_double_dqn_target :: "rat \<Rightarrow> rat list \<Rightarrow> rat list \<Rightarrow> int \<Rightarrow> bool \<Rightarrow> error + rat" where
  "spec_double_dqn_target g tar_row beh_row r d =
     ebind (argmax beh_row) (\<lambda>i.
       if i < length tar_row
       then Inr (if d then of_int r else of_int r + g * (tar_row ! i))
       else Inl IndexError)"

text \<open>A network for the examples: its weights are the row it predicts for every state,
  and fitting replaces them by the first target row.\<close>

definition example_predict :: "rat list \<Rightarrow> nat \<Rightarrow> rat list" where
  "example_predict net s = net"

definition example_fit :: "rat list \<Rightarrow> (nat \<times> rat list) list \<Rightarrow> rat list" where
  "example_fit net examples = (case examples of [] \<Rightarrow> net | (s, row) # _ \<Rightarrow> row)"

section \<open>Lemmas: sequencing\<close>

lemma ebind_Inr [simp]: "ebind (Inr x) f = f x"
  by (simp add: ebind_def)

lemma ebind_Inl [simp]: "ebind (Inl e) f = Inl e"
  by (simp add: ebind_def)

lemma ebind_eq_Inr: "ebind m f = Inr y \<longleftrightarrow> (\<exists>x. m = Inr x \<and> f x = Inr y)"
  by (cases m) simp_all

lemma ebind_eq_Inl: "ebind m f = Inl e \<longleftrightarrow> m = Inl e \<or> (\<exists>x. m = Inr x \<and> f x = Inl e)"
  by (cases m) simp_all

section \<open>Lemmas: the conflict set does not depend on the order of the inform\<close>

lemma as_set_simps [simp]: "as_set (Inl e) = Inl e" "as_set (Inr r) = Inr (set r)"
  by (simp_all add: as_set_def)

lemma add_keys_simps [simp]: "add_keys A (Inl e) = Inl e" "add_keys A (Inr S) = Inr (A \<union> S)"
  by (simp_all add: add_keys_def)

lemma accumulatesD:
  assumes "accumulates f"
  shows "as_set (f x acc) = add_keys (set acc) (as_set (f x []))"
  using assms unfolding accumulates_def by blast

lemma accumulates_Inl:
  assumes "accumulates f" "f x [] = Inl e"
  shows "f x acc = Inl e"
proof -
  from accumulatesD [OF assms(1), of x acc] have "as_set (f x acc) = Inl e"
    by (simp add: assms(2))
  then show ?thesis by (cases "f x acc") simp_all
qed

lemma accumulates_Inr_any:
  assumes "accumulates f" "f x [] = Inr r0"
  shows "\<exists>r. f x acc = Inr r \<and> set r = set acc \<union> set r0"
proof -
  from accumulatesD [OF assms(1), of x acc] have "as_set (f x acc) = Inr (set acc \<union> set r0)"
    by (simp add: assms(2))
  then show ?thesis by (cases "f x acc") simp_all
qed

lemma accumulates_Inr:
  assumes "accumulates f" "f x acc = Inr r"
  shows "\<exists>r0. f x [] = Inr r0 \<and> set r = set acc \<union> set r0"
proof (cases "f x []")
  case (Inl e)
  from accumulates_Inl [OF assms(1) Inl, of acc] assms(2) show ?thesis by simp
next
  case (Inr r0)
  from accumulates_Inr_any [OF assms(1) Inr, of acc] assms(2) Inr show ?thesis by simp
qed

lemma accumulatesI:
  assumes "\<And>x acc e. f x [] = Inl e \<Longrightarrow> f x acc = Inl e"
    and "\<And>x acc r0. f x [] = Inr r0 \<Longrightarrow> \<exists>r. f x acc = Inr r \<and> set r = set acc \<union> set r0"
  shows "accumulates f"
  unfolding accumulates_def
proof (intro allI)
  fix x acc
  show "as_set (f x acc) = add_keys (set acc) (as_set (f x []))"
  proof (cases "f x []")
    case (Inl e)
    from assms(1) [OF Inl, of acc] Inl show ?thesis by simp
  next
    case (Inr r0)
    from assms(2) [OF Inr, of acc] obtain r where "f x acc = Inr r" "set r = set acc \<union> set r0"
      by blast
    with Inr show ?thesis by simp
  qed
qed

lemma accumulates_test:
  "accumulates (\<lambda>x acc. ebind (t x) (\<lambda>ok. Inr (if ok then acc else List.insert (k x) acc)))"
proof (rule accumulatesI)
  fix x acc e
  assume "ebind (t x) (\<lambda>ok. Inr (if ok then [] else List.insert (k x) [])) = Inl e"
  then show "ebind (t x) (\<lambda>ok. Inr (if ok then acc else List.insert (k x) acc)) = Inl e"
    by (cases "t x") simp_all
next
  fix x acc r0
  assume "ebind (t x) (\<lambda>ok. Inr (if ok then [] else List.insert (k x) [])) = Inr r0"
  then show "\<exists>r. ebind (t x) (\<lambda>ok. Inr (if ok then acc else List.insert (k x) acc)) = Inr r
                 \<and> set r = set acc \<union> set r0"
    by (cases "t x") auto
qed

lemma accumulates_seq:
  assumes f: "accumulates f" and g: "accumulates g"
  shows "accumulates (\<lambda>x acc. ebind (f x acc) (g x))"
proof (rule accumulatesI)
  fix x acc e
  assume a: "ebind (f x []) (g x) = Inl e"
  show "ebind (f x acc) (g x) = Inl e"
  proof (cases "f x []")
    case (Inl e')
    with a have "e' = e" by simp
    with accumulates_Inl [OF f Inl, of acc] show ?thesis by simp
  next
    case (Inr r0)
    with a have g0: "g x r0 = Inl e" by simp
    from accumulates_Inr_any [OF f Inr, of acc] obtain r where r: "f x acc = Inr r" by blast
    have "g x [] = Inl e"
    proof (cases "g x []")
      case (Inl e')
      from accumulates_Inl [OF g Inl, of r0] g0 Inl show ?thesis by simp
    next
      case (Inr s0)
      from accumulates_Inr_any [OF g Inr, of r0] g0 show ?thesis by simp
    qed
    from accumulates_Inl [OF g this, of r] r show ?thesis by simp
  qed
next
  fix x acc s
  assume a: "ebind (f x []) (g x) = Inr s"
  then obtain r0 where r0: "f x [] = Inr r0" "g x r0 = Inr s"
    by (auto simp: ebind_eq_Inr)
  from accumulates_Inr_any [OF f r0(1), of acc] obtain r where r: "f x acc = Inr r" "set r = set acc \<union> set r0"
    by blast
  from accumulates_Inr [OF g r0(2)] obtain s0 where s0: "g x [] = Inr s0" "set s = set r0 \<union> set s0"
    by blast
  from accumulates_Inr_any [OF g s0(1), of r] obtain s' where s': "g x r = Inr s'" "set s' = set r \<union> set s0"
    by blast
  have "set s' = set acc \<union> set s"
    unfolding s'(2) r(2) s0(2) by (simp add: Un_assoc)
  with r(1) s'(1) show "\<exists>r. ebind (f x acc) (g x) = Inr r \<and> set r = set acc \<union> set s"
    by simp
qed

lemma accumulates_error_indep:
  assumes f: "accumulates f" and "f x acc = Inl e"
  shows "f x acc' = Inl e"
proof (cases "f x []")
  case (Inl e')
  from accumulates_Inl [OF f Inl, of acc] assms(2) have "e' = e" by simp
  with accumulates_Inl [OF f Inl, of acc'] show ?thesis by simp
next
  case (Inr r0)
  from accumulates_Inr_any [OF f Inr, of acc] assms(2) show ?thesis by simp
qed

lemma efold_error_indep:
  assumes f: "accumulates f"
  shows "efold f xs acc = Inl e \<Longrightarrow> efold f xs acc' = Inl e"
proof (induction xs arbitrary: acc acc')
  case Nil
  then show ?case by simp
next
  case (Cons x xs)
  show ?case
  proof (cases "f x acc")
    case (Inl e')
    with Cons.prems have "e' = e" by simp
    with accumulates_error_indep [OF f Inl, of acc'] show ?thesis by simp
  next
    case (Inr r)
    with Cons.prems have 1: "efold f xs r = Inl e" by simp
    from accumulates_Inr [OF f Inr] obtain r0 where "f x [] = Inr r0" by blast
    from accumulates_Inr_any [OF f this, of acc'] obtain r' where r': "f x acc' = Inr r'" by blast
    from Cons.IH [OF 1, of r'] r' show ?thesis by simp
  qed
qed

text \<open>A fold of an accumulating step succeeds exactly when every item does, and then
  yields the union of the contributions.\<close>

lemma efold_accumulates_Inr:
  assumes f: "accumulates f" and "efold f xs acc = Inr r"
  shows "(\<forall>x\<in>set xs. \<exists>r0. f x [] = Inr r0)
       \<and> set r = set acc \<union> (\<Union>x\<in>set xs. case f x [] of Inl _ \<Rightarrow> {} | Inr r0 \<Rightarrow> set r0)"
  using assms(2)
proof (induction xs arbitrary: acc)
  case Nil
  then show ?case by simp
next
  case (Cons x xs)
  from Cons.prems obtain r1 where r1: "f x acc = Inr r1" "efold f xs r1 = Inr r"
    by (auto simp: ebind_eq_Inr)
  from accumulates_Inr [OF f r1(1)] obtain r0 where r0: "f x [] = Inr r0" "set r1 = set acc \<union> set r0"
    by blast
  from Cons.IH [OF r1(2)]
  have ih: "\<forall>x\<in>set xs. \<exists>r0. f x [] = Inr r0"
    "set r = set r1 \<union> (\<Union>x\<in>set xs. case f x [] of Inl _ \<Rightarrow> {} | Inr r0 \<Rightarrow> set r0)"
    by blast+
  have "set r = set acc \<union> (\<Union>x\<in>set (x # xs). case f x [] of Inl _ \<Rightarrow> {} | Inr r0 \<Rightarrow> set r0)"
    unfolding ih(2) r0(2) by (simp add: r0(1) Un_assoc)
  moreover have "\<forall>y\<in>set (x # xs). \<exists>r0. f y [] = Inr r0"
    using ih(1) r0(1) by simp
  ultimately show ?case by blast
qed

lemma efold_accumulates_total:
  assumes f: "accumulates f" and "\<forall>x\<in>set xs. \<exists>r0. f x [] = Inr r0"
  shows "\<exists>r. efold f xs acc = Inr r"
  using assms(2)
proof (induction xs arbitrary: acc)
  case Nil
  then show ?case by simp
next
  case (Cons x xs)
  then obtain r0 where "f x [] = Inr r0" by auto
  from accumulates_Inr_any [OF f this, of acc] obtain r1 where r1: "f x acc = Inr r1" by blast
  from Cons have "\<exists>r. efold f xs r1 = Inr r" by simp
  with r1 show ?case by simp
qed

lemma efold_accumulates:
  assumes f: "accumulates f"
  shows "accumulates (\<lambda>xs acc. efold f xs acc)"
proof (rule accumulatesI)
  fix xs acc e
  assume "efold f xs [] = Inl e"
  then show "efold f xs acc = Inl e" by (rule efold_error_indep [OF f])
next
  fix xs acc r0
  assume a: "efold f xs [] = Inr r0"
  note 0 = efold_accumulates_Inr [OF f a]
  from efold_accumulates_total [OF f conjunct1 [OF 0], of acc]
  obtain r where r: "efold f xs acc = Inr r" by blast
  note 1 = efold_accumulates_Inr [OF f r]
  have "set r = set acc \<union> set r0"
    using conjunct2 [OF 0] conjunct2 [OF 1] by simp
  with r show "\<exists>r. efold f xs acc = Inr r \<and> set r = set acc \<union> set r0" by simp
qed

lemma accumulates_constraining:
  "accumulates (\<lambda>item acc. conflicts_constraining context (fst item) (snd item) acc)"
proof -
  have "accumulates (\<lambda>item acc.
          ebind (case map_of CONSTRAINING_KEYS_MAPS (fst item) of
                   None \<Rightarrow> Inr True
                 | Some (constrained_key, f) \<Rightarrow>
                     match_lambda constrained_key context (apply_cmp f) (snd item))
            (\<lambda>ok. Inr (if ok then acc
                        else List.insert
                               (case map_of CONSTRAINING_KEYS_MAPS (fst item) of
                                  None \<Rightarrow> [] | Some (constrained_key, f) \<Rightarrow> constrained_key) acc)))"
    by (rule accumulates_test)
  moreover have "(\<lambda>item acc. conflicts_constraining context (fst item) (snd item) acc) =
        (\<lambda>item acc.
          ebind (case map_of CONSTRAINING_KEYS_MAPS (fst item) of
                   None \<Rightarrow> Inr True
                 | Some (constrained_key, f) \<Rightarrow>
                     match_lambda constrained_key context (apply_cmp f) (snd item))
            (\<lambda>ok. Inr (if ok then acc
                        else List.insert
                               (case map_of CONSTRAINING_KEYS_MAPS (fst item) of
                                  None \<Rightarrow> [] | Some (constrained_key, f) \<Rightarrow> constrained_key) acc)))"
    by (intro ext) (simp add: conflicts_constraining_def split: option.splits prod.splits)
  ultimately show ?thesis by simp
qed

lemma accumulates_constrained:
  "accumulates (\<lambda>item acc. conflicts_constrained context (fst item) (snd item) acc)"
proof (rule accumulatesI)
  fix x :: "key \<times> pyval" and acc :: "key list" and e
  let ?g = "\<lambda>(p :: key \<times> cmp) acc.
               ebind (match_lambda (fst p) context (\<lambda>x' y. apply_cmp (snd p) y x') (snd x))
                 (\<lambda>ok. Inr (if ok then acc else List.insert (fst p) acc))"
  have g: "accumulates ?g" by (rule accumulates_test)
  have eq: "\<And>a. conflicts_constrained context (fst x) (snd x) a =
              (case map_of CONSTRAINED_KEYS_MAPS (fst x) of None \<Rightarrow> Inr a | Some cks \<Rightarrow> efold ?g cks a)"
    by (simp add: conflicts_constrained_def case_prod_unfold split: option.splits)
  assume a: "conflicts_constrained context (fst x) (snd x) [] = Inl e"
  show "conflicts_constrained context (fst x) (snd x) acc = Inl e"
  proof (cases "map_of CONSTRAINED_KEYS_MAPS (fst x)")
    case None
    with a show ?thesis unfolding eq by simp
  next
    case (Some cks)
    with a have "efold ?g cks [] = Inl e" unfolding eq by simp
    then have "efold ?g cks acc = Inl e" by (rule efold_error_indep [OF g])
    with Some show ?thesis unfolding eq by simp
  qed
next
  fix x :: "key \<times> pyval" and acc :: "key list" and r0
  let ?g = "\<lambda>(p :: key \<times> cmp) acc.
               ebind (match_lambda (fst p) context (\<lambda>x' y. apply_cmp (snd p) y x') (snd x))
                 (\<lambda>ok. Inr (if ok then acc else List.insert (fst p) acc))"
  have g: "accumulates ?g" by (rule accumulates_test)
  have eq: "\<And>a. conflicts_constrained context (fst x) (snd x) a =
              (case map_of CONSTRAINED_KEYS_MAPS (fst x) of None \<Rightarrow> Inr a | Some cks \<Rightarrow> efold ?g cks a)"
    by (simp add: conflicts_constrained_def case_prod_unfold split: option.splits)
  assume a: "conflicts_constrained context (fst x) (snd x) [] = Inr r0"
  show "\<exists>r. conflicts_constrained context (fst x) (snd x) acc = Inr r \<and> set r = set acc \<union> set r0"
  proof (cases "map_of CONSTRAINED_KEYS_MAPS (fst x)")
    case None
    with a show ?thesis unfolding eq by auto
  next
    case (Some cks)
    with a have "efold ?g cks [] = Inr r0" unfolding eq by simp
    from accumulates_Inr_any [OF efold_accumulates [OF g] this, of acc] Some
    show ?thesis unfolding eq by simp
  qed
qed

lemma accumulates_own:
  "accumulates (\<lambda>item acc. conflicts_own context (fst item) (snd item) acc)"
proof -
  have "accumulates (\<lambda>item acc.
          ebind (case map_of special_constraints (fst item) of
                   Some m \<Rightarrow> m context (snd item)
                 | None \<Rightarrow> match_lambda (fst item) context py_eq (snd item))
            (\<lambda>ok. Inr (if ok then acc else List.insert (fst item) acc)))"
    by (rule accumulates_test)
  moreover have "(\<lambda>item acc. conflicts_own context (fst item) (snd item) acc) =
        (\<lambda>item acc.
          ebind (case map_of special_constraints (fst item) of
                   Some m \<Rightarrow> m context (snd item)
                 | None \<Rightarrow> match_lambda (fst item) context py_eq (snd item))
            (\<lambda>ok. Inr (if ok then acc else List.insert (fst item) acc)))"
    by (intro ext) (simp add: conflicts_own_def split: option.splits)
  ultimately show ?thesis by simp
qed

lemma conflicts_item_seq:
  "conflicts_item context =
     (\<lambda>item acc. ebind (ebind (conflicts_constraining context (fst item) (snd item) acc)
                          (conflicts_constrained context (fst item) (snd item)))
                   (conflicts_own context (fst item) (snd item)))"
proof (intro ext)
  fix item :: "key \<times> pyval" and acc
  show "conflicts_item context item acc =
          ebind (ebind (conflicts_constraining context (fst item) (snd item) acc)
                   (conflicts_constrained context (fst item) (snd item)))
            (conflicts_own context (fst item) (snd item))"
    by (cases item; cases "conflicts_constraining context (fst item) (snd item) acc")
       (simp_all add: conflicts_item_def)
qed

lemma accumulates_conflicts_item: "accumulates (conflicts_item context)"
  unfolding conflicts_item_seq
  by (rule accumulates_seq [OF accumulates_seq [OF accumulates_constraining accumulates_constrained]
        accumulates_own])

lemma get_conflict_keys_set_cong:
  assumes "set inform = set inform'" and "get_conflict_keys inform context = Inr ck"
  shows "\<exists>ck'. get_conflict_keys inform' context = Inr ck' \<and> set ck' = set ck"
proof -
  let ?f = "conflicts_item (preprocess context)"
  have acc: "accumulates ?f" by (rule accumulates_conflicts_item)
  have s: "set (preprocess inform) = set (preprocess inform')"
    using assms(1) by (simp add: preprocess_def)
  from assms(2) have e: "efold ?f (preprocess inform) [] = Inr ck"
    by (simp add: get_conflict_keys_def)
  note r = efold_accumulates_Inr [OF acc e]
  with s have "\<forall>x\<in>set (preprocess inform'). \<exists>r0. ?f x [] = Inr r0" by simp
  from efold_accumulates_total [OF acc this, of "[]"]
  obtain ck' where ck': "efold ?f (preprocess inform') [] = Inr ck'" by blast
  from efold_accumulates_Inr [OF acc ck'] r s have "set ck' = set ck" by simp
  with ck' show ?thesis by (simp add: get_conflict_keys_def)
qed

lemma efilter_cong_Inr:
  assumes "\<And>x b. x \<in> set xs \<Longrightarrow> p x = Inr b \<Longrightarrow> q x = Inr b"
    and "efilter p xs = Inr ys"
  shows "efilter q xs = Inr ys"
  using assms
proof (induction xs arbitrary: ys)
  case Nil
  then show ?case by simp
next
  case (Cons x xs)
  from Cons.prems(2) obtain b zs where b: "p x = Inr b" "efilter p xs = Inr zs"
    "ys = (if b then x # zs else zs)"
    by (auto simp: ebind_eq_Inr)
  have qx: "q x = Inr b"
    by (rule Cons.prems(1) [OF _ b(1)]) simp
  have "efilter q xs = Inr zs"
  proof (rule Cons.IH)
    show "\<And>y c. y \<in> set xs \<Longrightarrow> p y = Inr c \<Longrightarrow> q y = Inr c"
    proof -
      fix y c
      assume "y \<in> set xs" and pc: "p y = Inr c"
      then have "y \<in> set (x # xs)" by simp
      then show "q y = Inr c" using pc by (rule Cons.prems(1))
    qed
    show "efilter p xs = Inr zs" by (rule b(2))
  qed
  with qx b(3) show ?case by simp
qed

lemma matching_docs_set_cong:
  assumes "set c = set c'" and "matching_docs documents c = Inr docs"
  shows "matching_docs documents c' = Inr docs"
proof -
  have "\<And>doc b. ebind (get_conflict_keys c doc) (\<lambda>ck. Inr (ck = [])) = Inr b \<Longrightarrow>
                  ebind (get_conflict_keys c' doc) (\<lambda>ck. Inr (ck = [])) = Inr b"
  proof -
    fix doc b
    assume "ebind (get_conflict_keys c doc) (\<lambda>ck. Inr (ck = [])) = Inr b"
    then obtain ck where ck: "get_conflict_keys c doc = Inr ck" "b = (ck = [])"
      by (auto simp: ebind_eq_Inr)
    from get_conflict_keys_set_cong [OF assms(1) ck(1)]
    obtain ck' where "get_conflict_keys c' doc = Inr ck'" "set ck' = set ck" by blast
    with ck(2) show "ebind (get_conflict_keys c' doc) (\<lambda>ck. Inr (ck = [])) = Inr b"
      by auto
  qed
  with assms(2) show ?thesis
    unfolding matching_docs_def by (rule efilter_cong_Inr [rotated])
qed

section \<open>Lemmas: the caches of the knowledge base manager\<close>

lemma matching_docs_set_eq:
  assumes "set c = set c'"
  shows "(matching_docs documents c = Inr docs) = (matching_docs documents c' = Inr docs)"
  using matching_docs_set_cong [OF assms] matching_docs_set_cong [OF assms [symmetric]] by blast


lemma value_list_ok_set_cong:
  assumes "set c = set c'" and "value_list_ok documents key c vals"
  shows "value_list_ok documents key c' vals"
  using assms(2) unfolding value_list_ok_def matching_docs_set_eq [OF assms(1)] .

lemma cache_ok_KBManager: "cache_ok (KBManager documents)"
  by (simp add: cache_ok_def documents_cache_ok_def values_cache_ok_def count_cache_ok_def
        KBManager_def)

lemma documents_cache_ok_update:
  assumes ok: "documents_cache_ok m" and md: "matching_docs (kb m) c = Inr docs"
    and m': "kb m' = kb m" "cache_documents m' = (cache_documents m)(set c := docs)"
  shows "documents_cache_ok m'"
  unfolding documents_cache_ok_def
proof (intro allI impI)
  fix c'
  assume ne: "cache_documents m' (set c') \<noteq> []"
  show "matching_docs (kb m') c' = Inr (cache_documents m' (set c'))"
  proof (cases "set c' = set c")
    case True
    from matching_docs_set_cong [OF True [symmetric] md] True m' show ?thesis by simp
  next
    case False
    with ne m' ok show ?thesis by (simp add: documents_cache_ok_def)
  qed
qed

lemma values_cache_ok_update:
  assumes ok: "values_cache_ok m" and v: "value_list_ok (kb m) key c vals"
    and m': "kb m' = kb m" "cache_values m' = (cache_values m)((key, set c) := vals)"
  shows "values_cache_ok m'"
  unfolding values_cache_ok_def
proof (intro allI impI)
  fix key' c'
  assume ne: "cache_values m' (key', set c') \<noteq> []"
  show "value_list_ok (kb m') key' c' (cache_values m' (key', set c'))"
  proof (cases "key' = key \<and> set c' = set c")
    case True
    then have "set c = set c'" by simp
    from value_list_ok_set_cong [OF this v] True m' show ?thesis by simp
  next
    case False
    with ne m' ok show ?thesis by (auto simp: values_cache_ok_def)
  qed
qed


lemma documents_cache_ok_cong:
  "documents_cache_ok m \<Longrightarrow> kb m' = kb m \<Longrightarrow> cache_documents m' = cache_documents m
     \<Longrightarrow> documents_cache_ok m'"
  by (simp add: documents_cache_ok_def)

lemma values_cache_ok_cong:
  "values_cache_ok m \<Longrightarrow> kb m' = kb m \<Longrightarrow> cache_values m' = cache_values m
     \<Longrightarrow> values_cache_ok m'"
  by (simp add: values_cache_ok_def)

lemma count_cache_ok_cong:
  "count_cache_ok m \<Longrightarrow> kb m' = kb m \<Longrightarrow> cache_count m' = cache_count m
     \<Longrightarrow> count_cache_ok m'"
  by (simp add: count_cache_ok_def)

lemma find_matching_docs_Inr:
  assumes ok: "cache_ok m" and "find_matching_docs m c = Inr (docs, m')"
  shows "matching_docs (kb m) c = Inr docs \<and> cache_ok m' \<and> kb m' = kb m
       \<and> cache_values m' = cache_values m \<and> cache_count m' = cache_count m"
proof (cases "cache_documents m (set c) = []")
  case True
  with assms(2) have md: "matching_docs (kb m) c = Inr docs"
    and m': "m' = m\<lparr>cache_documents := (cache_documents m)(set c := docs)\<rparr>"
    by (auto simp: find_matching_docs_def Let_def ebind_eq_Inr)
  from ok have "documents_cache_ok m'"
    unfolding cache_ok_def
    by (elim conjE, rule_tac documents_cache_ok_update [OF _ md]) (simp_all add: m')
  moreover from ok have "values_cache_ok m'" "count_cache_ok m'"
    unfolding cache_ok_def
    by (auto intro: values_cache_ok_cong count_cache_ok_cong simp: m')
  ultimately show ?thesis using md m' by (simp add: cache_ok_def)
next
  case False
  with assms(2) have "docs = cache_documents m (set c)" "m' = m"
    by (auto simp: find_matching_docs_def Let_def)
  with ok False show ?thesis
    unfolding cache_ok_def documents_cache_ok_def by simp
qed

lemma find_matching_docs_Inl:
  assumes "find_matching_docs m c = Inl e"
  shows "matching_docs (kb m) c = Inl e"
  using assms
  by (cases "cache_documents m (set c) = []"; cases "matching_docs (kb m) c")
     (simp_all add: find_matching_docs_def Let_def)

lemma find_matching_docs_total:
  assumes ok: "cache_ok m" and md: "matching_docs (kb m) c = Inr docs"
  shows "\<exists>m'. find_matching_docs m c = Inr (docs, m')"
proof (cases "find_matching_docs m c")
  case (Inl e)
  from find_matching_docs_Inl [OF Inl] md show ?thesis by simp
next
  case (Inr p)
  obtain docs' m' where p: "p = (docs', m')" by (cases p)
  from find_matching_docs_Inr [OF ok Inr [unfolded p]] md have "docs' = docs" by simp
  with Inr p show ?thesis by simp
qed

lemma random_choice_in_set: "random_choice xs n = Inr x \<Longrightarrow> x \<in> set xs"
  by (auto simp: random_choice_def split: if_splits)

lemma random_choice_total: "xs \<noteq> [] \<Longrightarrow> \<exists>x. random_choice xs n = Inr x"
  by (simp add: random_choice_def)

lemma find_matching_value_Inr:
  assumes ok: "cache_ok m" and fv: "find_matching_value m key c pick = Inr (v, m')"
  shows "cache_ok m' \<and> kb m' = kb m
       \<and> (\<exists>vals. value_list_ok (kb m) key c vals \<and> v \<in> set vals)"
proof (cases "cache_values m (key, set c) = []")
  case False
  with fv have rc: "random_choice (cache_values m (key, set c)) pick = Inr v" and m': "m' = m"
    by (auto simp: find_matching_value_def Let_def ebind_eq_Inr)
  from ok False have "value_list_ok (kb m) key c (cache_values m (key, set c))"
    by (simp add: cache_ok_def values_cache_ok_def)
  with random_choice_in_set [OF rc] ok m' show ?thesis by blast
next
  case True
  with fv obtain documents m1 m2 where
    fd: "find_matching_docs m c = Inr (documents, m1)"
    and m2: "(if documents = []
              then Inr (m1\<lparr>cache_values := (cache_values m1)((key, set c) := [NMA])\<rparr>)
              else ebind (doc_values key documents) (\<lambda>vals.
                     Inr (m1\<lparr>cache_values := (cache_values m1)((key, set c) := vals)\<rparr>))) = Inr m2"
    and rc: "random_choice (cache_values m2 (key, set c)) pick = Inr v" and m': "m' = m2"
    by (auto simp: find_matching_value_def Let_def ebind_eq_Inr)
  note 1 = find_matching_docs_Inr [OF ok fd]
  from m2 obtain vals where vals: "m2 = m1\<lparr>cache_values := (cache_values m1)((key, set c) := vals)\<rparr>"
    and vl: "if documents = [] then vals = [NMA] else doc_values key documents = Inr vals"
    by (cases "documents = []") (auto simp: ebind_eq_Inr)
  from 1 vl have v: "value_list_ok (kb m1) key c vals"
    unfolding value_list_ok_def by auto
  from 1 have ok1: "documents_cache_ok m1" "values_cache_ok m1" "count_cache_ok m1"
    by (simp_all add: cache_ok_def)
  have "documents_cache_ok m2"
    by (rule documents_cache_ok_cong [OF ok1(1)]) (simp_all add: vals)
  moreover have "values_cache_ok m2"
    by (rule values_cache_ok_update [OF ok1(2) v]) (simp_all add: vals)
  moreover have "count_cache_ok m2"
    by (rule count_cache_ok_cong [OF ok1(3)]) (simp_all add: vals)
  moreover have "kb m2 = kb m" using 1 vals by simp
  moreover have "v \<in> set vals" using random_choice_in_set [OF rc] vals by simp
  ultimately show ?thesis using v 1 m' by (auto simp: cache_ok_def)
qed



section \<open>Lemmas: the exceptions of the matching\<close>

lemma py_int_error: "py_int v = Inl e \<Longrightarrow> e = ValueError_int"
  by (auto simp: py_int_def py_int_str_def int_of_unsigned_def ebind_def
      split: pyval.splits list.splits if_splits sum.splits)

lemma apply_cmp_error: "apply_cmp f x y = Inl e \<Longrightarrow> e = ValueError_int"
  by (auto simp: apply_cmp_def ebind_eq_Inl dest: py_int_error)

lemma find_words_error: "find_words context key value = Inl e \<Longrightarrow> e = AttributeError"
  by (auto simp: find_words_def split: option.splits pyval.splits list.splits)

lemma match_lambda_error:
  assumes "match_lambda key context f v = Inl e"
  shows "\<exists>x. f x v = Inl e"
  using assms by (auto simp: match_lambda_def split: option.splits)

lemma efold_error:
  "efold f xs acc = Inl e \<Longrightarrow> \<exists>x\<in>set xs. \<exists>a. f x a = Inl e"
proof (induction xs arbitrary: acc)
  case Nil
  then show ?case by simp
next
  case (Cons x xs)
  then show ?case
    by (cases "f x acc") (simp_all, blast+)
qed

lemma special_constraints_error:
  assumes "map_of special_constraints k = Some m" and "m context v = Inl e"
  shows "e = AttributeError"
proof -
  from assms(1) have "m \<in> {match_authors, match_document_title, match_publication_title,
                          match_publisher, match_keywords}"
    by (auto simp: special_constraints_def split: if_splits)
  with assms(2) show ?thesis
    by (auto simp: match_authors_def match_document_title_def match_publication_title_def
        match_publisher_def match_keywords_def ebind_eq_Inl
        dest: find_words_error split: if_splits)
qed

lemma conflicts_item_error:
  assumes "conflicts_item context item acc = Inl e"
  shows "e = AttributeError \<or> e = ValueError_int"
proof -
  obtain k v where item: "item = (k, v)" by (cases item)
  from assms consider
      (a) a where "conflicts_constraining context k v a = Inl e"
    | (b) a where "conflicts_constrained context k v a = Inl e"
    | (c) a where "conflicts_own context k v a = Inl e"
    unfolding item conflicts_item_def by (auto simp: ebind_eq_Inl)
  then show ?thesis
  proof cases
    case a
    then show ?thesis
      by (auto simp: conflicts_constraining_def ebind_eq_Inl
          dest!: match_lambda_error dest: apply_cmp_error split: option.splits)
  next
    case b
    then obtain cks where "efold (\<lambda>(constraining_key, f) acc.
                   ebind (match_lambda constraining_key context (\<lambda>x y. apply_cmp f y x) v) (\<lambda>ok.
                     Inr (if ok then acc else List.insert constraining_key acc))) cks a = Inl e"
      by (auto simp: conflicts_constrained_def split: option.splits)
    from efold_error [OF this] show ?thesis
      by (auto simp: ebind_eq_Inl dest!: match_lambda_error dest: apply_cmp_error)
  next
    case c
    then show ?thesis
      by (auto simp: conflicts_own_def ebind_eq_Inl py_eq_def
          dest!: match_lambda_error dest: special_constraints_error split: option.splits)
  qed
qed

lemma get_conflict_keys_error:
  assumes "get_conflict_keys inform context = Inl e"
  shows "e = AttributeError \<or> e = ValueError_int"
proof -
  from assms have "efold (conflicts_item (preprocess context)) (preprocess inform) [] = Inl e"
    by (simp add: get_conflict_keys_def)
  from efold_error [OF this]
  obtain x a where "conflicts_item (preprocess context) x a = Inl e"
    by blast
  then show ?thesis by (rule conflicts_item_error)
qed

section \<open>Theorems: matching and the knowledge base manager\<close>

lemma CONSTRAINED_KEYS_MAPS_eq:
  "CONSTRAINED_KEYS_MAPS =
     [(''num_citations'', [(''min_num_citations'', Ge)]),
      (''publication_year'', [(''min_publication_year'', Ge), (''max_publication_year'', Le)])]"
  by (simp add: CONSTRAINED_KEYS_MAPS_def CONSTRAINING_KEYS_MAPS_def)

lemma map_of_preprocess_None:
  "k \<notin> fst ` set d \<Longrightarrow> map_of (preprocess d) k = None"
  by (force simp: preprocess_def map_of_eq_None_iff)

lemma map_of_preprocess:
  assumes "distinct (map fst d)"
  shows "map_of (preprocess d) k =
           (case map_of d k of
              None \<Rightarrow> None
            | Some v \<Rightarrow> if v = PStr OWT then None else Some (preprocess_value v))"
  using assms
proof (induction d)
  case Nil
  then show ?case by (simp add: preprocess_def)
next
  case (Cons p d)
  obtain k' v' where p: "p = (k', v')" by (cases p)
  from Cons.prems have d: "distinct (map fst d)" and k': "k' \<notin> fst ` set d"
    unfolding p by auto
  have pre: "preprocess (p # d) =
    (if v' = PStr OWT then preprocess d else (k', preprocess_value v') # preprocess d)"
    unfolding p by (simp add: preprocess_def)
  show ?case
  proof (cases "k = k'")
    case True
    with k' map_of_preprocess_None [of k d] have "map_of (preprocess d) k = None" by simp
    with True show ?thesis unfolding pre by (simp add: p)
  next
    case False
    with Cons.IH [OF d] show ?thesis unfolding pre by (simp add: p)
  qed
qed

lemma range_inform_no_conflict:
  assumes ck: "map_of CONSTRAINING_KEYS_MAPS inf_key = Some (constrained_key, f)"
    and absent: "constrained_key \<notin> fst ` set context" and own: "inf_key \<notin> fst ` set context"
  shows "get_conflict_keys [(inf_key, inf_value)] context = Inr []"
proof -
  have 1: "map_of (preprocess context) constrained_key = None"
    using absent by (rule map_of_preprocess_None)
  have 2: "map_of (preprocess context) inf_key = None"
    using own by (rule map_of_preprocess_None)
  from ck have keys: "inf_key \<in> {''min_num_citations'', ''min_publication_year'', ''max_publication_year''}"
    by (auto simp: CONSTRAINING_KEYS_MAPS_def split: if_splits)
  then have 3: "map_of CONSTRAINED_KEYS_MAPS inf_key = None"
    and 4: "map_of special_constraints inf_key = None"
    by (auto simp: CONSTRAINED_KEYS_MAPS_eq special_constraints_def)
  have item: "conflicts_item (preprocess context) (inf_key, v') [] = Inr []" for v'
    by (simp add: conflicts_item_def conflicts_constraining_def conflicts_constrained_def
        conflicts_own_def match_lambda_def ck 1 2 3 4)
  have pre: "preprocess [(inf_key, inf_value)] =
               (if inf_value = PStr OWT then [] else [(inf_key, preprocess_value inf_value)])"
    by (simp add: preprocess_def)
  show ?thesis
    by (simp add: get_conflict_keys_def pre item)
qed

text \<open>
  C7. A range-constraining inform (\<^verbatim>\<open>min_num_citations\<close>, \<^verbatim>\<open>min_publication_year\<close>
  or \<^verbatim>\<open>max_publication_year\<close>, with any value) yields the empty conflict set against
  every document that lacks the field it constrains.  The inform
  \<^verbatim>\<open>{min_num_citations: 5}\<close> conflicts, on \<^verbatim>\<open>num_citations\<close>, with every document
  whose \<^verbatim>\<open>num_citations\<close> is 3.
\<close>

theorem range_constraints_one_directional:
  assumes "is_document context"
  shows "(\<forall>inf_key constrained_key f inf_value.
            (inf_key, constrained_key, f) \<in> set CONSTRAINING_KEYS_MAPS
            \<and> constrained_key \<notin> fst ` set context
            \<longrightarrow> get_conflict_keys [(inf_key, inf_value)] context = Inr [])
       \<and> (map_of context ''num_citations'' = Some (PInt 3)
            \<longrightarrow> get_conflict_keys [(''min_num_citations'', PInt 5)] context = Inr [''num_citations''])"
proof (intro conjI allI impI)
  fix inf_key constrained_key f inf_value
  assume a: "(inf_key, constrained_key, f) \<in> set CONSTRAINING_KEYS_MAPS
             \<and> constrained_key \<notin> fst ` set context"
  then have ck: "map_of CONSTRAINING_KEYS_MAPS inf_key = Some (constrained_key, f)"
    by (auto simp: CONSTRAINING_KEYS_MAPS_def)
  from a have "inf_key \<notin> set DOCUMENT_FIELDS"
    by (auto simp: CONSTRAINING_KEYS_MAPS_def DOCUMENT_FIELDS_def)
  with assms have "inf_key \<notin> fst ` set context"
    by (auto simp: is_document_def)
  with ck a show "get_conflict_keys [(inf_key, inf_value)] context = Inr []"
    by (simp add: range_inform_no_conflict)
next
  assume a: "map_of context ''num_citations'' = Some (PInt 3)"
  from assms have d: "distinct (map fst context)" by (simp add: is_document_def)
  have "''min_num_citations'' \<notin> set DOCUMENT_FIELDS"
    by (simp add: DOCUMENT_FIELDS_def)
  with assms have "''min_num_citations'' \<notin> fst ` set context"
    by (auto simp: is_document_def)
  then have 2: "map_of (preprocess context) ''min_num_citations'' = None"
    by (rule map_of_preprocess_None)
  have 1: "map_of (preprocess context) ''num_citations'' = Some (PInt 3)"
    by (simp add: map_of_preprocess [OF d] a OWT_def preprocess_value_def)
  have pre: "preprocess [(''min_num_citations'', PInt 5)] = [(''min_num_citations'', PInt 5)]"
    by (simp add: preprocess_def preprocess_value_def)
  have "conflicts_item (preprocess context) (''min_num_citations'', PInt 5) [] = Inr [''num_citations'']"
    by (simp add: conflicts_item_def conflicts_constraining_def conflicts_constrained_def
        conflicts_own_def match_lambda_def CONSTRAINING_KEYS_MAPS_def CONSTRAINED_KEYS_MAPS_eq
        special_constraints_def 1 2 apply_cmp_def py_int_def py_eq_def)
  then show "get_conflict_keys [(''min_num_citations'', PInt 5)] context = Inr [''num_citations'']"
    by (simp add: get_conflict_keys_def pre)
qed

theorem range_constraints_one_directional_witness:
  "is_document [(''doi'', PStr ''D1''), (''authors'', PStr ''Alice Smith'')]
   \<and> is_document [(''doi'', PStr ''D2''), (''num_citations'', PInt 3)]
   \<and> get_conflict_keys [(''min_num_citations'', PInt 5)]
        [(''doi'', PStr ''D1''), (''authors'', PStr ''Alice Smith'')] = Inr []
   \<and> get_conflict_keys [(''max_publication_year'', PStr ''1999'')]
        [(''doi'', PStr ''D1''), (''authors'', PStr ''Alice Smith'')] = Inr []
   \<and> get_conflict_keys [(''min_num_citations'', PInt 5)]
        [(''doi'', PStr ''D2''), (''num_citations'', PInt 3)] = Inr [''num_citations'']"
proof -
  have d1: "is_document [(''doi'', PStr ''D1''), (''authors'', PStr ''Alice Smith'')]"
    and d2: "is_document [(''doi'', PStr ''D2''), (''num_citations'', PInt 3)]"
    by (simp_all add: is_document_def DOCUMENT_FIELDS_def)
  have m: "(''min_num_citations'', ''num_citations'', Ge) \<in> set CONSTRAINING_KEYS_MAPS"
    "(''max_publication_year'', ''publication_year'', Le) \<in> set CONSTRAINING_KEYS_MAPS"
    by (simp_all add: CONSTRAINING_KEYS_MAPS_def)
  note r1 = range_constraints_one_directional [OF d1, THEN conjunct1, rule_format,
      of "''min_num_citations''" "''num_citations''" Ge "PInt 5"]
  note r2 = range_constraints_one_directional [OF d1, THEN conjunct1, rule_format,
      of "''max_publication_year''" "''publication_year''" Le "PStr ''1999''"]
  note r3 = range_constraints_one_directional [OF d2, THEN conjunct2, rule_format]
  have "get_conflict_keys [(''min_num_citations'', PInt 5)]
          [(''doi'', PStr ''D1''), (''authors'', PStr ''Alice Smith'')] = Inr []"
    by (rule r1) (simp add: m)
  moreover have "get_conflict_keys [(''max_publication_year'', PStr ''1999'')]
          [(''doi'', PStr ''D1''), (''authors'', PStr ''Alice Smith'')] = Inr []"
    by (rule r2) (simp add: m)
  moreover have "get_conflict_keys [(''min_num_citations'', PInt 5)]
          [(''doi'', PStr ''D2''), (''num_citations'', PInt 3)] = Inr [''num_citations'']"
    by (rule r3) simp
  ultimately show ?thesis using d1 d2 by simp
qed

text \<open>
  C9. On a manager with coherent caches: when exactly one document of the knowledge base
  matches \<^verbatim>\<open>{GOAL_KEY: goal_proposal}\<close>, the call does what the check of the
  constraints against that document does (it returns whether the conflict set is
  empty, or passes on the exception of the matching), and the unpacking never raises;
  when no document or more than one matches, the unpacking raises \<^verbatim>\<open>ValueError\<close>
  and no boolean is returned.
\<close>

theorem check_goal_proposal_consistency_single_document:
  assumes "cache_ok m"
  shows "(\<forall>doc. matching_docs (kb m) [(GOAL_KEY, goal_proposal)] = Inr [doc] \<longrightarrow>
            (\<exists>m'. check_goal_proposal_consistency m goal_proposal constraints =
                     ebind (get_conflict_keys constraints doc) (\<lambda>ck. Inr (ck = [], m'))
                  \<and> cache_ok m' \<and> kb m' = kb m)
            \<and> check_goal_proposal_consistency m goal_proposal constraints \<noteq> Inl ValueError_unpack)
       \<and> (\<forall>docs. matching_docs (kb m) [(GOAL_KEY, goal_proposal)] = Inr docs \<and> length docs \<noteq> 1 \<longrightarrow>
            check_goal_proposal_consistency m goal_proposal constraints = Inl ValueError_unpack)"
proof (intro conjI allI impI)
  fix doc
  assume md: "matching_docs (kb m) [(GOAL_KEY, goal_proposal)] = Inr [doc]"
  from find_matching_docs_total [OF assms md]
  obtain m' where fd: "find_matching_docs m [(GOAL_KEY, goal_proposal)] = Inr ([doc], m')"
    by blast
  then have eq: "check_goal_proposal_consistency m goal_proposal constraints =
                   ebind (get_conflict_keys constraints doc) (\<lambda>ck. Inr (ck = [], m'))"
    by (simp add: check_goal_proposal_consistency_def)
  with find_matching_docs_Inr [OF assms fd]
  show "\<exists>m'. check_goal_proposal_consistency m goal_proposal constraints =
                     ebind (get_conflict_keys constraints doc) (\<lambda>ck. Inr (ck = [], m'))
                  \<and> cache_ok m' \<and> kb m' = kb m"
    by blast
  show "check_goal_proposal_consistency m goal_proposal constraints \<noteq> Inl ValueError_unpack"
  proof
    assume "check_goal_proposal_consistency m goal_proposal constraints = Inl ValueError_unpack"
    then have "get_conflict_keys constraints doc = Inl ValueError_unpack"
      unfolding eq by (simp add: ebind_eq_Inl)
    from get_conflict_keys_error [OF this] show False by simp
  qed
next
  fix docs
  assume a: "matching_docs (kb m) [(GOAL_KEY, goal_proposal)] = Inr docs \<and> length docs \<noteq> 1"
  from find_matching_docs_total [OF assms conjunct1 [OF a]]
  obtain m' where fd: "find_matching_docs m [(GOAL_KEY, goal_proposal)] = Inr (docs, m')"
    by blast
  from a have "length docs \<noteq> 1" by simp
  then have "(case docs of
                [proposed_doc] \<Rightarrow>
                  ebind (get_conflict_keys constraints proposed_doc) (\<lambda>ck. Inr (ck = [], m'))
              | _ \<Rightarrow> Inl ValueError_unpack) = Inl ValueError_unpack"
    by (cases docs; cases "tl docs") simp_all
  with fd show "check_goal_proposal_consistency m goal_proposal constraints = Inl ValueError_unpack"
    by (simp add: check_goal_proposal_consistency_def)
qed

theorem check_goal_proposal_consistency_single_document_witness:
  "cache_ok (KBManager [doc_D1, doc_D2])
   \<and> matching_docs [doc_D1, doc_D2] [(GOAL_KEY, PStr ''D1'')] = Inr [doc_D1]
   \<and> map_sum id fst (check_goal_proposal_consistency (KBManager [doc_D1, doc_D2]) (PStr ''D1'')
        [(''min_num_citations'', PInt 11)]) = Inr False
   \<and> map_sum id fst (check_goal_proposal_consistency (KBManager [doc_D1, doc_D2]) (PStr ''D1'')
        [(''authors'', PStr ''alice'')]) = Inr True
   \<and> matching_docs [doc_D1, doc_D2] [(GOAL_KEY, PStr ''D3'')] = Inr []
   \<and> check_goal_proposal_consistency (KBManager [doc_D1, doc_D2]) (PStr ''D3'')
        [(''authors'', PStr ''alice'')] = Inl ValueError_unpack
   \<and> matching_docs [doc_D1, doc_D2] [(GOAL_KEY, PStr OWT)] = Inr [doc_D1, doc_D2]
   \<and> check_goal_proposal_consistency (KBManager [doc_D1, doc_D2]) (PStr OWT)
        [(''authors'', PStr ''alice'')] = Inl ValueError_unpack"
proof -
  let ?m = "KBManager [doc_D1, doc_D2]"
  have ok: "cache_ok ?m" by (rule cache_ok_KBManager)
  have kb: "kb ?m = [doc_D1, doc_D2]" by (simp add: KBManager_def)
  have 1: "matching_docs [doc_D1, doc_D2] [(GOAL_KEY, PStr ''D1'')] = Inr [doc_D1]"
    by code_simp
  have 3: "matching_docs [doc_D1, doc_D2] [(GOAL_KEY, PStr ''D3'')] = Inr []"
    by code_simp
  have 4: "matching_docs [doc_D1, doc_D2] [(GOAL_KEY, PStr OWT)] = Inr [doc_D1, doc_D2]"
    by code_simp
  have g1: "get_conflict_keys [(''min_num_citations'', PInt 11)] doc_D1 = Inr [''num_citations'']"
    by code_simp
  have g2: "get_conflict_keys [(''authors'', PStr ''alice'')] doc_D1 = Inr []"
    by code_simp
  note single = check_goal_proposal_consistency_single_document [OF ok, THEN conjunct1, rule_format,
      unfolded kb, OF 1, THEN conjunct1]
  note other = check_goal_proposal_consistency_single_document [OF ok, THEN conjunct2, rule_format,
      unfolded kb]
  from single [of "[(''min_num_citations'', PInt 11)]"]
  have a: "map_sum id fst (check_goal_proposal_consistency ?m (PStr ''D1'')
        [(''min_num_citations'', PInt 11)]) = Inr False"
    by (auto simp: g1)
  from single [of "[(''authors'', PStr ''alice'')]"]
  have b: "map_sum id fst (check_goal_proposal_consistency ?m (PStr ''D1'')
        [(''authors'', PStr ''alice'')]) = Inr True"
    by (auto simp: g2)
  have c: "check_goal_proposal_consistency ?m (PStr ''D3'') [(''authors'', PStr ''alice'')]
             = Inl ValueError_unpack"
    by (rule other [of _ "[]"]) (simp add: 3)
  have d: "check_goal_proposal_consistency ?m (PStr OWT) [(''authors'', PStr ''alice'')]
             = Inl ValueError_unpack"
    by (rule other [of _ "[doc_D1, doc_D2]"]) (simp add: 4)
  from ok 1 3 4 a b c d show ?thesis by simp
qed




section \<open>Theorems: the state tracker\<close>

lemma map_of_dict_update:
  "map_of (dict_update d other) = map_of d ++ map_of (rev other)"
  unfolding dict_update_def
proof (induction other arbitrary: d)
  case Nil
  show ?case by simp
next
  case (Cons p other)
  obtain k v where p: "p = (k, v)" by (cases p)
  have "map_of (fold (\<lambda>(k, v). AList.update k v) other (AList.update k v d))
        = map_of (AList.update k v d) ++ map_of (rev other)"
    by (rule Cons.IH)
  also have "\<dots> = map_of d ++ map_of (rev (p # other))"
    unfolding p by (simp add: update_conv' map_add_def fun_eq_iff split: option.splits)
  finally show ?case unfolding p by simp
qed

lemma set_set_update: "set (set_update s keys) = set s \<union> set keys"
  unfolding set_update_def by (induction keys arbitrary: s) auto

lemma distinct_set_update: "distinct s \<Longrightarrow> distinct (set_update s keys)"
  unfolding set_update_def by (induction keys arbitrary: s) auto

lemma doc_values_in:
  "doc_values key docs = Inr vals \<Longrightarrow> v \<in> set vals \<Longrightarrow>
     \<exists>doc\<in>set docs. \<exists>x. map_of doc key = Some x \<and> v = py_str x"
  unfolding doc_values_def
proof (induction docs arbitrary: vals)
  case Nil
  then show ?case by simp
next
  case (Cons d docs)
  from Cons.prems(1) obtain y ys where
    y: "(case map_of d key of None \<Rightarrow> Inl (KeyError key) | Some v \<Rightarrow> Inr (py_str v)) = Inr y"
    and ys: "emap (\<lambda>doc. case map_of doc key of None \<Rightarrow> Inl (KeyError key)
                         | Some v \<Rightarrow> Inr (py_str v)) docs = Inr ys"
    and vals: "vals = y # ys"
    by (auto simp: ebind_eq_Inr)
  show ?case
  proof (cases "v = y")
    case True
    with y show ?thesis by (auto split: option.splits)
  next
    case False
    with Cons.prems(2) vals have "v \<in> set ys" by simp
    from Cons.IH [OF ys this] show ?thesis by auto
  qed
qed

text \<open>
  C2. For the agent action \<^verbatim>\<open>(INF, K)\<close>, on a tracker whose knowledge base manager has
  coherent caches: the key \<open>K\<close> leaves the constraint set and the knowledge base is
  queried for a value of \<open>K\<close> under the remaining constraints; an exception of the query
  is passed on.  If the query returns the sentinel \<open>NMA\<close>, then with a standing proposal
  the act \<open>WCP\<close> is returned, the agent informs are cleared and the constraint set is
  the user informs, and without one the act \<open>NMA\<close> is returned.  Otherwise the action
  extended with the value is returned, the value is the agent inform for \<open>K\<close>, and \<open>K\<close>
  with that value is back in the constraint set.  The value is the sentinel when no
  document matches the remaining constraints, and the string of the field \<open>K\<close> of a
  matching document else.  The returned act is the last agent act.
\<close>

theorem process_agent_action_inform:
  assumes "cache_ok (st_kb_manager st)"
  shows "let remaining = AList.delete K (st_curr_constraints st) in
         K \<notin> fst ` set remaining
       \<and> (case find_matching_value (st_kb_manager st) K remaining pick of
            Inl e \<Rightarrow> process_agent_action st (ATup [INF_intent, K]) pick = Inl e
          | Inr (value, m') \<Rightarrow>
              (\<exists>act st'. process_agent_action st (ATup [INF_intent, K]) pick = Inr (act, st')
                 \<and> st_kb_manager st' = m' \<and> cache_ok m' \<and> kb m' = kb (st_kb_manager st)
                 \<and> st_last_agt_act st' = Some act
                 \<and> st_curr_usr_inf st' = st_curr_usr_inf st
                 \<and> st_curr_usr_req st' = st_curr_usr_req st
                 \<and> (value = NMA \<and> st_curr_agt_inf st \<noteq> [] \<longrightarrow>
                      act = AStr WCP \<and> st_curr_agt_inf st' = []
                      \<and> st_curr_constraints st' = st_curr_usr_inf st)
                 \<and> (value = NMA \<and> st_curr_agt_inf st = [] \<longrightarrow>
                      act = AStr NMA \<and> st_curr_agt_inf st' = []
                      \<and> st_curr_constraints st' = remaining)
                 \<and> (value \<noteq> NMA \<longrightarrow>
                      act = ATup [INF_intent, K, value]
                      \<and> st_curr_agt_inf st' = AList.update K (PStr value) (st_curr_agt_inf st)
                      \<and> map_of (st_curr_agt_inf st') K = Some (PStr value)
                      \<and> st_curr_constraints st' = AList.update K (PStr value) remaining
                      \<and> map_of (st_curr_constraints st') K = Some (PStr value))
                 \<and> (\<exists>docs. matching_docs (kb (st_kb_manager st)) remaining = Inr docs
                       \<and> (docs = [] \<longrightarrow> value = NMA)
                       \<and> (docs \<noteq> [] \<longrightarrow>
                            (\<exists>doc\<in>set docs. \<exists>x. map_of doc K = Some x \<and> value = py_str x)))))"
proof -
  let ?remaining = "AList.delete K (st_curr_constraints st)"
  have notin: "K \<notin> fst ` set ?remaining"
    by (simp add: delete_notin_dom)
  have "case find_matching_value (st_kb_manager st) K ?remaining pick of
            Inl e \<Rightarrow> process_agent_action st (ATup [INF_intent, K]) pick = Inl e
          | Inr (value, m') \<Rightarrow>
              (\<exists>act st'. process_agent_action st (ATup [INF_intent, K]) pick = Inr (act, st')
                 \<and> st_kb_manager st' = m' \<and> cache_ok m' \<and> kb m' = kb (st_kb_manager st)
                 \<and> st_last_agt_act st' = Some act
                 \<and> st_curr_usr_inf st' = st_curr_usr_inf st
                 \<and> st_curr_usr_req st' = st_curr_usr_req st
                 \<and> (value = NMA \<and> st_curr_agt_inf st \<noteq> [] \<longrightarrow>
                      act = AStr WCP \<and> st_curr_agt_inf st' = []
                      \<and> st_curr_constraints st' = st_curr_usr_inf st)
                 \<and> (value = NMA \<and> st_curr_agt_inf st = [] \<longrightarrow>
                      act = AStr NMA \<and> st_curr_agt_inf st' = []
                      \<and> st_curr_constraints st' = ?remaining)
                 \<and> (value \<noteq> NMA \<longrightarrow>
                      act = ATup [INF_intent, K, value]
                      \<and> st_curr_agt_inf st' = AList.update K (PStr value) (st_curr_agt_inf st)
                      \<and> map_of (st_curr_agt_inf st') K = Some (PStr value)
                      \<and> st_curr_constraints st' = AList.update K (PStr value) ?remaining
                      \<and> map_of (st_curr_constraints st') K = Some (PStr value))
                 \<and> (\<exists>docs. matching_docs (kb (st_kb_manager st)) ?remaining = Inr docs
                       \<and> (docs = [] \<longrightarrow> value = NMA)
                       \<and> (docs \<noteq> [] \<longrightarrow>
                            (\<exists>doc\<in>set docs. \<exists>x. map_of doc K = Some x \<and> value = py_str x))))"
  proof (cases "find_matching_value (st_kb_manager st) K ?remaining pick")
    case (Inl e)
    then show ?thesis
      by (simp add: process_agent_action_def act_item_def Let_def)
  next
    case (Inr p)
    obtain "value" m' where p: "p = (value, m')" by (cases p)
    note fv = Inr [unfolded p]
    from find_matching_value_Inr [OF assms fv]
    obtain vals where ok': "cache_ok m'" and kb': "kb m' = kb (st_kb_manager st)"
      and vl: "value_list_ok (kb (st_kb_manager st)) K ?remaining vals" and vin: "value \<in> set vals"
      by blast
    from vl obtain docs where docs: "matching_docs (kb (st_kb_manager st)) ?remaining = Inr docs"
      and dv: "if docs = [] then vals = [NMA] else doc_values K docs = Inr vals"
      unfolding value_list_ok_def by blast
    have origin: "\<exists>docs. matching_docs (kb (st_kb_manager st)) ?remaining = Inr docs
                       \<and> (docs = [] \<longrightarrow> value = NMA)
                       \<and> (docs \<noteq> [] \<longrightarrow>
                            (\<exists>doc\<in>set docs. \<exists>x. map_of doc K = Some x \<and> value = py_str x))"
    proof (cases "docs = []")
      case True
      with dv vin docs show ?thesis by auto
    next
      case False
      with dv have "doc_values K docs = Inr vals" by simp
      from doc_values_in [OF this vin] docs False show ?thesis by blast
    qed
    show ?thesis
    proof (cases "value = NMA")
      case True
      with fv ok' kb' origin show ?thesis
        by (cases "st_curr_agt_inf st = []")
           (simp_all add: process_agent_action_def act_item_def Let_def st_reset_agent_informs_def)
    next
      case False
      with fv ok' kb' origin show ?thesis
        by (simp add: process_agent_action_def act_item_def Let_def act_append_def update_conv')
    qed
  qed
  with notin show ?thesis by (simp add: Let_def)
qed

theorem process_agent_action_inform_witness:
  "cache_ok (st_kb_manager (StateTracker [doc_D1, doc_D2]))
   \<and> map_sum id fst (process_agent_action (StateTracker [doc_D1, doc_D2])
        (ATup [INF_intent, ''doi'']) 1) = Inr (ATup [INF_intent, ''doi'', ''D2''])
   \<and> map_sum id fst (process_agent_action
        ((StateTracker [doc_D1, doc_D2])\<lparr>st_curr_constraints := [(''min_num_citations'', PInt 11)]\<rparr>)
        (ATup [INF_intent, ''doi'']) 0) = Inr (AStr NMA)
   \<and> map_sum id fst (process_agent_action
        ((StateTracker [doc_D1, doc_D2])
           \<lparr>st_curr_agt_inf := [(''authors'', PStr ''Alice Smith'')],
            st_curr_constraints := [(''authors'', PStr ''Alice Smith''), (''content_type'', PStr ''Books'')]\<rparr>)
        (ATup [INF_intent, ''doi'']) 0) = Inr (AStr WCP)"
proof -
  let ?st1 = "StateTracker [doc_D1, doc_D2]"
  let ?st2 = "?st1\<lparr>st_curr_constraints := [(''min_num_citations'', PInt 11)]\<rparr>"
  let ?st3 = "?st1\<lparr>st_curr_agt_inf := [(''authors'', PStr ''Alice Smith'')],
            st_curr_constraints := [(''authors'', PStr ''Alice Smith''), (''content_type'', PStr ''Books'')]\<rparr>"
  have ok: "cache_ok (st_kb_manager ?st1)" "cache_ok (st_kb_manager ?st2)" "cache_ok (st_kb_manager ?st3)"
    by (simp_all add: StateTracker_def cache_ok_KBManager)
  have "map_sum id fst (find_matching_value (st_kb_manager ?st1) ''doi''
          (AList.delete ''doi'' (st_curr_constraints ?st1)) 1) = Inr ''D2''"
    by code_simp
  then obtain m1 where f1: "find_matching_value (st_kb_manager ?st1) ''doi''
          (AList.delete ''doi'' (st_curr_constraints ?st1)) 1 = Inr (''D2'', m1)"
    by (cases "find_matching_value (st_kb_manager ?st1) ''doi''
          (AList.delete ''doi'' (st_curr_constraints ?st1)) 1") auto
  have "map_sum id fst (find_matching_value (st_kb_manager ?st2) ''doi''
          (AList.delete ''doi'' (st_curr_constraints ?st2)) 0) = Inr NMA"
    by code_simp
  then obtain m2 where f2: "find_matching_value (st_kb_manager ?st2) ''doi''
          (AList.delete ''doi'' (st_curr_constraints ?st2)) 0 = Inr (NMA, m2)"
    by (cases "find_matching_value (st_kb_manager ?st2) ''doi''
          (AList.delete ''doi'' (st_curr_constraints ?st2)) 0") auto
  have "map_sum id fst (find_matching_value (st_kb_manager ?st3) ''doi''
          (AList.delete ''doi'' (st_curr_constraints ?st3)) 0) = Inr NMA"
    by code_simp
  then obtain m3 where f3: "find_matching_value (st_kb_manager ?st3) ''doi''
          (AList.delete ''doi'' (st_curr_constraints ?st3)) 0 = Inr (NMA, m3)"
    by (cases "find_matching_value (st_kb_manager ?st3) ''doi''
          (AList.delete ''doi'' (st_curr_constraints ?st3)) 0") auto
  have ne: "''D2'' \<noteq> NMA" by (simp add: NMA_def)
  from process_agent_action_inform [OF ok(1), of "''doi''" 1, unfolded Let_def f1] ne
  have a: "map_sum id fst (process_agent_action ?st1 (ATup [INF_intent, ''doi'']) 1)
             = Inr (ATup [INF_intent, ''doi'', ''D2''])"
    by auto
  from process_agent_action_inform [OF ok(2), of "''doi''" 0, unfolded Let_def f2]
  have b: "map_sum id fst (process_agent_action ?st2 (ATup [INF_intent, ''doi'']) 0) = Inr (AStr NMA)"
    by (auto simp: StateTracker_def)
  from process_agent_action_inform [OF ok(3), of "''doi''" 0, unfolded Let_def f3]
  have c: "map_sum id fst (process_agent_action ?st3 (ATup [INF_intent, ''doi'']) 0) = Inr (AStr WCP)"
    by auto
  from ok(1) a b c show ?thesis by simp
qed

text \<open>
  C3. The reject act clears the agent informs and makes the constraint set the user
  informs; the thanks act changes neither.  For an action with informs and requests
  whose conflict check against the agent informs returns: the agent informs are
  cleared and the constraint set restarts from the user informs exactly when there is
  a conflict, and are left as they are otherwise; then the informs are merged into
  the user informs and into the constraint set (the action's value wins on a common
  key) and the requests are added to the user requests.  An exception of the conflict
  check is passed on.  The action is the last user act.
\<close>

theorem process_user_action_reset_and_merge:
  "process_user_action st (UStr RJCT) =
     Inr (st\<lparr>st_curr_agt_inf := [], st_curr_constraints := st_curr_usr_inf st,
             st_last_usr_act := Some (UStr RJCT)\<rparr>)
   \<and> process_user_action st (UStr THX) = Inr (st\<lparr>st_last_usr_act := Some (UStr THX)\<rparr>)
   \<and> (case get_conflict_keys informs (st_curr_agt_inf st) of
        Inl e \<Rightarrow> process_user_action st (UDict informs requests) = Inl e
      | Inr ck \<Rightarrow>
          (\<exists>st'. process_user_action st (UDict informs requests) = Inr st'
             \<and> st_curr_agt_inf st' = (if ck = [] then st_curr_agt_inf st else [])
             \<and> st_curr_usr_inf st' = dict_update (st_curr_usr_inf st) informs
             \<and> st_curr_constraints st' =
                 dict_update (if ck = [] then st_curr_constraints st else st_curr_usr_inf st) informs
             \<and> st_curr_usr_req st' = set_update (st_curr_usr_req st) requests
             \<and> map_of (st_curr_usr_inf st') = map_of (st_curr_usr_inf st) ++ map_of (rev informs)
             \<and> map_of (st_curr_constraints st') =
                 map_of (if ck = [] then st_curr_constraints st else st_curr_usr_inf st)
                   ++ map_of (rev informs)
             \<and> set (st_curr_usr_req st') = set (st_curr_usr_req st) \<union> set requests
             \<and> st_last_usr_act st' = Some (UDict informs requests)
             \<and> st_kb_manager st' = st_kb_manager st
             \<and> st_last_agt_act st' = st_last_agt_act st))"
proof (intro conjI)
  show "process_user_action st (UStr RJCT) =
     Inr (st\<lparr>st_curr_agt_inf := [], st_curr_constraints := st_curr_usr_inf st,
             st_last_usr_act := Some (UStr RJCT)\<rparr>)"
    by (simp add: process_user_action_def st_reset_agent_informs_def)
  show "process_user_action st (UStr THX) = Inr (st\<lparr>st_last_usr_act := Some (UStr THX)\<rparr>)"
    by (simp add: process_user_action_def USR_SPEC_ACTS_def THX_def RJCT_def)
  show "case get_conflict_keys informs (st_curr_agt_inf st) of
        Inl e \<Rightarrow> process_user_action st (UDict informs requests) = Inl e
      | Inr ck \<Rightarrow>
          (\<exists>st'. process_user_action st (UDict informs requests) = Inr st'
             \<and> st_curr_agt_inf st' = (if ck = [] then st_curr_agt_inf st else [])
             \<and> st_curr_usr_inf st' = dict_update (st_curr_usr_inf st) informs
             \<and> st_curr_constraints st' =
                 dict_update (if ck = [] then st_curr_constraints st else st_curr_usr_inf st) informs
             \<and> st_curr_usr_req st' = set_update (st_curr_usr_req st) requests
             \<and> map_of (st_curr_usr_inf st') = map_of (st_curr_usr_inf st) ++ map_of (rev informs)
             \<and> map_of (st_curr_constraints st') =
                 map_of (if ck = [] then st_curr_constraints st else st_curr_usr_inf st)
                   ++ map_of (rev informs)
             \<and> set (st_curr_usr_req st') = set (st_curr_usr_req st) \<union> set requests
             \<and> st_last_usr_act st' = Some (UDict informs requests)
             \<and> st_kb_manager st' = st_kb_manager st
             \<and> st_last_agt_act st' = st_last_agt_act st)"
  proof (cases "get_conflict_keys informs (st_curr_agt_inf st)")
    case (Inl e)
    then show ?thesis by (simp add: process_user_action_def)
  next
    case (Inr ck)
    then show ?thesis
      by (cases "ck = []")
         (simp_all add: process_user_action_def st_reset_agent_informs_def Let_def
            map_of_dict_update set_set_update)
  qed
qed

text \<open>
  The scenario of the specification: the user has informed \<^verbatim>\<open>{open_access: "Yes"}\<close>,
  the agent has proposed \<^verbatim>\<open>(authors, "Bob")\<close>, and the user now informs
  \<^verbatim>\<open>{authors: "Alice"}\<close>.
\<close>

theorem process_user_action_reset_and_merge_witness:
  "map_sum id (\<lambda>st. (st_curr_agt_inf st, st_curr_usr_inf st, st_curr_constraints st, st_curr_usr_req st))
     (process_user_action
        ((StateTracker [doc_D1])
           \<lparr>st_curr_agt_inf := [(''authors'', PStr ''Bob'')],
            st_curr_usr_inf := [(''open_access'', PStr ''Yes'')],
            st_curr_constraints := [(''open_access'', PStr ''Yes''), (''authors'', PStr ''Bob'')]\<rparr>)
        (UDict [(''authors'', PStr ''Alice'')] [''doi'']))
   = Inr ([], [(''open_access'', PStr ''Yes''), (''authors'', PStr ''Alice'')],
          [(''open_access'', PStr ''Yes''), (''authors'', PStr ''Alice'')], [''doi''])"
proof -
  let ?st = "(StateTracker [doc_D1])
           \<lparr>st_curr_agt_inf := [(''authors'', PStr ''Bob'')],
            st_curr_usr_inf := [(''open_access'', PStr ''Yes'')],
            st_curr_constraints := [(''open_access'', PStr ''Yes''), (''authors'', PStr ''Bob'')]\<rparr>"
  have g: "get_conflict_keys [(''authors'', PStr ''Alice'')] (st_curr_agt_inf ?st) = Inr [''authors'']"
    by code_simp
  from process_user_action_reset_and_merge [of ?st "[(''authors'', PStr ''Alice'')]" "[''doi'']",
      THEN conjunct2, THEN conjunct2, unfolded g]
  obtain st' where r: "process_user_action ?st (UDict [(''authors'', PStr ''Alice'')] [''doi'']) = Inr st'"
    and 1: "st_curr_agt_inf st' = (if [''authors''] = [] then st_curr_agt_inf ?st else [])"
    and 2: "st_curr_usr_inf st' = dict_update (st_curr_usr_inf ?st) [(''authors'', PStr ''Alice'')]"
    and 3: "st_curr_constraints st' =
             dict_update (if [''authors''] = [] then st_curr_constraints ?st else st_curr_usr_inf ?st)
               [(''authors'', PStr ''Alice'')]"
    and 4: "st_curr_usr_req st' = set_update (st_curr_usr_req ?st) [''doi'']"
    unfolding sum.case by (elim exE conjE)
  show ?thesis
    unfolding r by (simp add: 1 2 3 4 dict_update_def set_update_def StateTracker_def)
qed

section \<open>Theorems: the rule-based agent\<close>

lemma set_set_difference_update: "set (set_difference_update s keys) = set s - set keys"
  by (auto simp: set_difference_update_def)

lemma set_set_discard: "set (set_discard s k) = set s - {k}"
  by (auto simp: set_discard_def)

lemma random_choice_nonempty:
  "xs \<noteq> [] \<Longrightarrow> \<exists>x. random_choice xs n = Inr x \<and> x \<in> set xs"
  by (simp add: random_choice_def)

lemma list_index_total:
  "x \<in> set xs \<Longrightarrow> \<exists>i. list_index xs x = Inr i \<and> i < length xs \<and> xs ! i = x"
proof (induction xs)
  case Nil
  then show ?case by simp
next
  case (Cons y ys)
  show ?case
  proof (cases "y = x")
    case True
    then show ?thesis by simp
  next
    case False
    with Cons.prems have "x \<in> set ys" by simp
    from Cons.IH [OF this] obtain i where "list_index ys x = Inr i" "i < length ys" "ys ! i = x"
      by blast
    with False show ?thesis by simp
  qed
qed

lemma rb_inv_RBAgent: "rb_inv RBAgent"
  by (simp add: rb_inv_def RBAgent_def)

lemma rb_inv_reset: "rb_inv (rb_reset rb)"
  by (simp add: rb_inv_def rb_reset_def)

lemma rb_inv_reset_agent_informs: "rb_inv rb \<Longrightarrow> rb_inv (rb_reset_agent_informs rb)"
  by (simp add: rb_inv_def rb_reset_agent_informs_def)

lemma rb_inv_record:
  assumes "rb_inv rb" and "record_processed_action rb action = Inr rb'"
  shows "rb_inv rb'"
proof -
  have "rb_pending_usr_req rb' = rb_pending_usr_req rb \<and> rb_curr_usr_req rb' = rb_curr_usr_req rb
        \<or> rb' = rb_reset_agent_informs rb"
    using assms(2)
    by (auto simp: record_processed_action_def ebind_eq_Inr split: if_splits)
  with assms(1) rb_inv_reset_agent_informs [OF assms(1)] show ?thesis
    by (auto simp: rb_inv_def)
qed

lemma rb_inv_process_user_action:
  assumes inv: "rb_inv rb" and conf: "configured_usr_act user_action"
    and p: "rb_process_user_action rb user_action = Inr rb1"
  shows "rb_inv rb1"
proof (cases user_action)
  case (UStr s)
  with p have "rb1 = rb \<or> rb1 = rb_reset_agent_informs rb"
    by (auto simp: rb_process_user_action_def split: if_splits)
  with inv rb_inv_reset_agent_informs [OF inv] show ?thesis by auto
next
  case (UDict informs requests)
  with conf have req: "set requests \<subseteq> set USR_REQ_KEYS"
    by (simp add: configured_usr_act_def)
  from p UDict obtain ck where ck: "get_conflict_keys informs (rb_curr_agt_inf rb) = Inr ck"
    by (auto simp: rb_process_user_action_def ebind_eq_Inr)
  define rb0 where "rb0 = (if ck \<noteq> [] then rb_reset_agent_informs rb else rb)"
  have inv0: "rb_inv rb0"
    using inv rb_inv_reset_agent_informs [OF inv] by (simp add: rb0_def)
  from p have 1: "rb_pending_usr_req rb1 =
      set_difference_update (set_update (rb_pending_usr_req rb0) requests) (map fst informs)"
    and 2: "rb_curr_usr_req rb1 =
      set_difference_update (set_update (rb_curr_usr_req rb0) requests) (map fst informs)"
    unfolding UDict by (auto simp: rb_process_user_action_def ck Let_def rb0_def)
  from inv0 req show ?thesis
    unfolding rb_inv_def 1 2
    by (auto simp: set_set_difference_update set_set_update)
qed

lemma rb_choose_action_total:
  assumes inv: "rb_inv rb" and conf: "configured_usr_act user_action"
  shows "\<exists>intent key. rb_choose_action rb user_action draws = Inr (intent, key)
                     \<and> (intent, key) \<in> set AGT_ACTS"
proof -
  let ?user_requests = "case user_action of UStr _ \<Rightarrow> [] | UDict _ requests \<Rightarrow> requests"
  have ur: "set ?user_requests \<subseteq> set AGT_INF_KEYS"
    using conf by (cases user_action) (simp_all add: configured_usr_act_def USR_REQ_KEYS_def)
  have inf_ok: "k \<in> set AGT_INF_KEYS \<Longrightarrow> (INF_intent, k) \<in> set AGT_ACTS" for k
    by (auto simp: AGT_ACTS_def)
  have req_ok: "k \<in> set AGT_REQ_KEYS \<Longrightarrow> (REQ, k) \<in> set AGT_ACTS" for k
    by (auto simp: AGT_ACTS_def)
  have goal: "GOAL_KEY \<in> set AGT_INF_KEYS" by (simp add: AGT_INF_KEYS_def)
  have ne: "AGT_REQ_KEYS \<noteq> []"
    by (simp add: AGT_REQ_KEYS_def USR_INF_KEYS_def USR_INF_NUM_KEYS_def)
  show ?thesis
  proof (cases "?user_requests \<noteq> []")
    case True
    from random_choice_nonempty [OF True, of "rb_c142 draws"] ur True inf_ok show ?thesis
      by (auto simp: rb_choose_action_def Let_def)
  next
    case ur_empty: False
    show ?thesis
    proof (cases "rb_pending_usr_req rb \<noteq> []")
      case True
      from inv have "set (rb_pending_usr_req rb) \<subseteq> set AGT_INF_KEYS"
        by (simp add: rb_inv_def USR_REQ_KEYS_def)
      with random_choice_nonempty [OF True, of "rb_c144 draws"] ur_empty True inf_ok show ?thesis
        by (auto simp: rb_choose_action_def Let_def)
    next
      case pend_empty: False
      let ?req_keys = "filter (\<lambda>k. k \<notin> set (irrelevant_keys rb)) AGT_REQ_KEYS"
      let ?inf_keys = "filter (\<lambda>k. k \<notin> set (irrelevant_keys rb)) AGT_INF_KEYS"
      let ?inf_OWT_keys = "filter (\<lambda>k. k \<in> set AGT_INF_KEYS) (rb_curr_OWT_inf rb)"
      have eq: "rb_choose_action rb user_action draws =
         (if GOAL_KEY \<in> set ?inf_keys \<and> rb_r157 draws then Inr (INF_intent, GOAL_KEY)
            else if ?req_keys \<noteq> [] \<and> rb_r159 draws
            then ebind (random_choice ?req_keys (rb_c160 draws)) (\<lambda>k. Inr (REQ, k))
            else if ?inf_keys \<noteq> []
            then ebind (random_choice ?inf_keys (rb_c162 draws)) (\<lambda>k. Inr (INF_intent, k))
            else if ?inf_OWT_keys \<noteq> [] \<and> rb_r163 draws
            then ebind (random_choice ?inf_OWT_keys (rb_c164 draws)) (\<lambda>k. Inr (INF_intent, k))
            else ebind (random_choice AGT_REQ_KEYS (rb_c166 draws)) (\<lambda>k. Inr (REQ, k)))"
        using ur_empty pend_empty by (simp add: rb_choose_action_def Let_def)
      consider (a) "GOAL_KEY \<in> set ?inf_keys \<and> rb_r157 draws"
        | (b) "\<not> (GOAL_KEY \<in> set ?inf_keys \<and> rb_r157 draws)" "?req_keys \<noteq> [] \<and> rb_r159 draws"
        | (c) "\<not> (GOAL_KEY \<in> set ?inf_keys \<and> rb_r157 draws)" "\<not> (?req_keys \<noteq> [] \<and> rb_r159 draws)"
              "?inf_keys \<noteq> []"
        | (d) "\<not> (GOAL_KEY \<in> set ?inf_keys \<and> rb_r157 draws)" "\<not> (?req_keys \<noteq> [] \<and> rb_r159 draws)"
              "\<not> ?inf_keys \<noteq> []" "?inf_OWT_keys \<noteq> [] \<and> rb_r163 draws"
        | (e) "\<not> (GOAL_KEY \<in> set ?inf_keys \<and> rb_r157 draws)" "\<not> (?req_keys \<noteq> [] \<and> rb_r159 draws)"
              "\<not> ?inf_keys \<noteq> []" "\<not> (?inf_OWT_keys \<noteq> [] \<and> rb_r163 draws)"
        by blast
      then show ?thesis
      proof cases
        case a
        with goal inf_ok show ?thesis unfolding eq by simp
      next
        case b
        from b(2) have "?req_keys \<noteq> []" by simp
        from random_choice_nonempty [OF this, of "rb_c160 draws"]
        obtain k where "random_choice ?req_keys (rb_c160 draws) = Inr k" "k \<in> set ?req_keys" by blast
        with b req_ok [of k] inf_ok [OF goal] show ?thesis unfolding eq by auto
      next
        case c
        from random_choice_nonempty [OF c(3), of "rb_c162 draws"]
        obtain k where "random_choice ?inf_keys (rb_c162 draws) = Inr k" "k \<in> set ?inf_keys" by blast
        with c inf_ok [of k] inf_ok [OF goal] show ?thesis unfolding eq by auto
      next
        case d
        from d(4) have "?inf_OWT_keys \<noteq> []" by simp
        from random_choice_nonempty [OF this, of "rb_c164 draws"]
        obtain k where "random_choice ?inf_OWT_keys (rb_c164 draws) = Inr k" "k \<in> set ?inf_OWT_keys"
          by blast
        with d inf_ok [of k] inf_ok [OF goal] show ?thesis unfolding eq by auto
      next
        case e
        from random_choice_nonempty [OF ne, of "rb_c166 draws"]
        obtain k where "random_choice AGT_REQ_KEYS (rb_c166 draws) = Inr k" "k \<in> set AGT_REQ_KEYS"
          by blast
        with e req_ok [of k] inf_ok [OF goal] show ?thesis unfolding eq by auto
      qed
    qed
  qed
qed

lemma rb_get_action_inv:
  assumes inv: "rb_inv rb" and conf: "configured_usr_act user_action"
    and g: "rb_get_action rb user_action draws = Inr (result, rb')"
  shows "rb_inv rb'"
proof -
  from g obtain rb1 where p: "rb_process_user_action rb user_action = Inr rb1"
    and sub: "set (rb_pending_usr_req rb') \<subseteq> set (rb_pending_usr_req rb1)"
    and eq: "rb_curr_usr_req rb' = rb_curr_usr_req rb1"
    by (auto simp: rb_get_action_def ebind_eq_Inr Let_def set_set_discard split: if_splits)
  from rb_inv_process_user_action [OF inv conf p] sub eq show ?thesis
    by (auto simp: rb_inv_def)
qed

lemma rb_reachable_inv: "rb_reachable rb \<Longrightarrow> rb_inv rb"
proof (induction rule: rb_reachable.induct)
  case rb_init
  show ?case by (rule rb_inv_RBAgent)
next
  case (rb_after_reset rb)
  show ?case by (rule rb_inv_reset)
next
  case (rb_after_get_action rb user_action draws result rb')
  then show ?case by (auto intro: rb_get_action_inv)
next
  case (rb_after_record rb action rb')
  then show ?case by (auto intro: rb_inv_record)
qed

text \<open>
  C8. In every reachable state and for every user action built from the configured
  keys and every outcome of the random draws, \<^verbatim>\<open>get_action\<close> either passes on an
  exception of the conflict check of the user's informs against the agent's informs, or
  returns: then the action is a tuple of an intent and a key that is a member of
  \<open>AGT_ACTS\<close>, the returned index is its position in \<open>AGT_ACTS\<close> (the lookup has not
  raised), and the action is no string, hence no special act.
\<close>

theorem rb_get_action_in_AGT_ACTS:
  assumes "rb_reachable rb" and "configured_usr_act user_action"
  shows "(case rb_process_user_action rb user_action of
            Inl e \<Rightarrow>
              rb_get_action rb user_action draws = Inl e
              \<and> (\<exists>informs requests. user_action = UDict informs requests
                    \<and> get_conflict_keys informs (rb_curr_agt_inf rb) = Inl e)
          | Inr rb1 \<Rightarrow>
              (\<exists>index intent key rb'.
                  rb_get_action rb user_action draws = Inr ((index, ATup [intent, key]), rb')
                  \<and> (intent, key) \<in> set AGT_ACTS
                  \<and> index < length AGT_ACTS \<and> AGT_ACTS ! index = (intent, key)
                  \<and> ATup [intent, key] \<notin> AStr ` set AGT_SPEC_ACTS
                  \<and> rb_reachable rb'))"
proof (cases "rb_process_user_action rb user_action")
  case (Inl e)
  have "\<exists>informs requests. user_action = UDict informs requests
          \<and> get_conflict_keys informs (rb_curr_agt_inf rb) = Inl e"
  proof (cases user_action)
    case (UStr s)
    with assms(2) Inl show ?thesis
      by (auto simp: rb_process_user_action_def configured_usr_act_def split: if_splits)
  next
    case (UDict informs requests)
    with Inl show ?thesis
      by (auto simp: rb_process_user_action_def ebind_eq_Inl Let_def)
  qed
  with Inl show ?thesis by (simp add: rb_get_action_def)
next
  case (Inr rb1)
  from rb_reachable_inv [OF assms(1)] have inv: "rb_inv rb" .
  from rb_inv_process_user_action [OF inv assms(2) Inr] have inv1: "rb_inv rb1" .
  from rb_choose_action_total [OF inv1 assms(2), of draws]
  obtain intent key where ch: "rb_choose_action rb1 user_action draws = Inr (intent, key)"
    and mem: "(intent, key) \<in> set AGT_ACTS" by blast
  from list_index_total [OF mem]
  obtain index where ix: "list_index AGT_ACTS (intent, key) = Inr index"
    "index < length AGT_ACTS" "AGT_ACTS ! index = (intent, key)" by blast
  from Inr ch ix(1)
  obtain rb' where g: "rb_get_action rb user_action draws = Inr ((index, ATup [intent, key]), rb')"
    by (simp add: rb_get_action_def Let_def)
  from rb_after_get_action [OF assms g] have "rb_reachable rb'" .
  with g mem ix Inr show ?thesis by auto
qed

theorem rb_get_action_in_AGT_ACTS_witness:
  "rb_reachable RBAgent
   \<and> configured_usr_act (UDict [(''authors'', PStr ''Alice'')] [''doi''])
   \<and> map_sum id fst (rb_get_action RBAgent (UDict [(''authors'', PStr ''Alice'')] [''doi''])
        \<lparr>rb_c142 = 0, rb_c144 = 0, rb_r157 = False, rb_r159 = False, rb_c160 = 0, rb_c162 = 0, rb_r163 = False,
         rb_c164 = 0, rb_c166 = 0\<rparr>) = Inr (9, ATup [INF_intent, ''doi''])
   \<and> AGT_ACTS ! 9 = (INF_intent, ''doi'')"
proof -
  let ?ua = "UDict [(''authors'', PStr ''Alice'')] [''doi'']"
  let ?d = "\<lparr>rb_c142 = 0, rb_c144 = 0, rb_r157 = False, rb_r159 = False, rb_c160 = 0, rb_c162 = 0, rb_r163 = False,
         rb_c164 = 0, rb_c166 = 0\<rparr>"
  have conf: "configured_usr_act ?ua"
    by (simp add: configured_usr_act_def USR_INF_KEYS_def USR_INF_STR_KEYS_def USR_REQ_KEYS_def
        AGT_INF_KEYS_def GOAL_KEY_def)
  have ev: "map_sum id fst (rb_get_action RBAgent ?ua ?d) = Inr (9, ATup [INF_intent, ''doi''])"
    by code_simp
  then obtain rb1 where p: "rb_process_user_action RBAgent ?ua = Inr rb1"
    by (cases "rb_process_user_action RBAgent ?ua") (auto simp: rb_get_action_def)
  from rb_get_action_in_AGT_ACTS [OF rb_init conf, of ?d, unfolded p sum.case]
  obtain index intent key rb' where
    g: "rb_get_action RBAgent ?ua ?d = Inr ((index, ATup [intent, key]), rb')"
    and ix: "AGT_ACTS ! index = (intent, key)"
    by blast
  from ev g have "index = 9" "intent = INF_intent" "key = ''doi''" by simp_all
  with ix have "AGT_ACTS ! 9 = (INF_intent, ''doi'')" by simp
  with rb_init conf ev show ?thesis by simp
qed

section \<open>Theorems: the user simulator\<close>

lemma inform_goal_value_action:
  "inform_goal_value us key = Inr us' \<Longrightarrow> \<exists>a. us' = us\<lparr>us_action := a\<rparr>"
  by (auto simp: inform_goal_value_def ebind_eq_Inr)

lemma request_key_action:
  "request_key us key = Inr us' \<Longrightarrow> \<exists>a. us' = us\<lparr>us_action := a\<rparr>"
  by (auto simp: request_key_def ebind_eq_Inr)

lemma pick_random_action_action:
  assumes "pick_random_action us d = Inr us'"
  shows "\<exists>a. us' = us\<lparr>us_action := a\<rparr>"
proof (cases "us_not_sent_inf us \<noteq> [] \<and> us_r165 d")
  case True
  with assms obtain key where
    rest: "(if key \<in> set (filter_req_keys us USR_REQ_KEYS) \<and> us_r169 d
            then request_key us key else inform_goal_value us key) = Inr us'"
    by (auto simp: pick_random_action_def Let_def ebind_eq_Inr)
  show ?thesis
  proof (cases "key \<in> set (filter_req_keys us USR_REQ_KEYS) \<and> us_r169 d")
    case True
    with rest have "request_key us key = Inr us'" by simp
    then show ?thesis by (rule request_key_action)
  next
    case False
    with rest have "inform_goal_value us key = Inr us'" by simp
    then show ?thesis by (rule inform_goal_value_action)
  qed
next
  case first: False
  show ?thesis
  proof (cases "filter_req_keys us (us_not_answ_req us) \<noteq> [] \<and> us_r174 d")
    case True
    with first assms obtain key where "request_key us key = Inr us'"
      by (auto simp: pick_random_action_def Let_def ebind_eq_Inr)
    then show ?thesis by (rule request_key_action)
  next
    case False
    with first assms have "us' = us\<lparr>us_action := UStr THX\<rparr>"
      by (auto simp: pick_random_action_def Let_def)
    then show ?thesis by blast
  qed
qed

lemma efold_inform_goal_value_action:
  "efold (\<lambda>ack us'. inform_goal_value us' ack) keys us = Inr us' \<Longrightarrow>
     us' = us \<or> (\<exists>a. us' = us\<lparr>us_action := a\<rparr>)"
proof (induction keys arbitrary: us)
  case Nil
  then show ?case by simp
next
  case (Cons k keys)
  from Cons.prems obtain us1 where 1: "inform_goal_value us k = Inr us1"
    and 2: "efold (\<lambda>ack us'. inform_goal_value us' ack) keys us1 = Inr us'"
    by (auto simp: ebind_eq_Inr)
  from inform_goal_value_action [OF 1] obtain a where a: "us1 = us\<lparr>us_action := a\<rparr>" by blast
  from Cons.IH [OF 2] show ?case unfolding a by auto
qed

lemma action_set_inform_action:
  "ebind (action_set_inform (us_action us) key v) (\<lambda>a. Inr (us\<lparr>us_action := a\<rparr>)) = Inr us'
     \<Longrightarrow> \<exists>a. us' = us\<lparr>us_action := a\<rparr>"
  by (auto simp: ebind_eq_Inr)

lemma response_to_request_action:
  assumes "response_to_request us agent_action d = Inr us'"
  shows "\<exists>a. us' = us\<lparr>us_action := a\<rparr>"
proof -
  from assms obtain x req_key where u: "unpack2 agent_action = Inr (x, req_key)"
    by (auto simp: response_to_request_def ebind_eq_Inr)
  have same: "us' = us \<Longrightarrow> \<exists>a. us' = us\<lparr>us_action := a\<rparr>"
    by (rule exI [of _ "us_action us"]) simp
  note r = assms [unfolded response_to_request_def u ebind_Inr prod.case Let_def]
  show ?thesis
  proof (cases "req_key \<in> fst ` set (goal_INF (us_goal us))")
    case True
    from r [unfolded if_P [OF True]] show ?thesis by (rule inform_goal_value_action)
  next
    case c1: False
    note r1 = r [unfolded if_not_P [OF c1]]
    show ?thesis
    proof (cases "goal_constraining_keys us req_key \<noteq> []")
      case True
      from efold_inform_goal_value_action [OF r1 [unfolded if_P [OF True]]] same
      show ?thesis by blast
    next
      case c2: False
      note r2 = r1 [unfolded if_not_P [OF c2]]
      show ?thesis
      proof (cases "req_key \<in> set (goal_REQ (us_goal us))")
        case c3: True
        note r3 = r2 [unfolded if_P [OF c3]]
        show ?thesis
        proof (cases "req_key \<in> fst ` set (us_curr_agt_inf us) \<and> us_r261 d")
          case True
          from r3 [unfolded if_P [OF True]] show ?thesis
            by (auto simp: ebind_eq_Inr)
        next
          case c4: False
          note r4 = r3 [unfolded if_not_P [OF c4]]
          show ?thesis
          proof (cases "req_key \<in> set (filter_req_keys us (goal_REQ (us_goal us))) \<and> us_r265 d")
            case True
            from r4 [unfolded if_P [OF True]] show ?thesis by (rule request_key_action)
          next
            case False
            from r4 [unfolded if_not_P [OF False]] show ?thesis
              by (auto simp: ebind_eq_Inr)
          qed
        qed
      next
        case c3: False
        note r3 = r2 [unfolded if_not_P [OF c3]]
        show ?thesis
        proof (cases "us_not_sent_inf us \<noteq> [] \<and> us_r272 d")
          case True
          with r3 obtain a key where "inform_goal_value (us\<lparr>us_action := a\<rparr>) key = Inr us'"
            by (auto simp: ebind_eq_Inr)
          from inform_goal_value_action [OF this] show ?thesis by auto
        next
          case False
          with r3 show ?thesis by (auto simp: ebind_eq_Inr)
        qed
      qed
    qed
  qed
qed

lemma goal_key_tracked_reset_agent_informs: "goal_key_tracked (us_reset_agent_informs us)"
  by (simp add: goal_key_tracked_def us_reset_agent_informs_def)

lemma us_reset_agent_informs_frame:
  "us_satisfied (us_reset_agent_informs us) = us_satisfied us"
  "patience (us_reset_agent_informs us) = patience us"
  "us_goal (us_reset_agent_informs us) = us_goal us"
  by (simp_all add: us_reset_agent_informs_def)

lemma accept_inform_props:
  assumes "goal_key_tracked us"
  shows "goal_key_tracked (accept_inform us inf_key inf_value)"
    and "us_satisfied (accept_inform us inf_key inf_value) \<longrightarrow>
           GOAL_KEY \<in> fst ` set (us_curr_agt_inf (accept_inform us inf_key inf_value))"
    and "patience (accept_inform us inf_key inf_value) = patience us"
    and "us_goal (accept_inform us inf_key inf_value) = us_goal us"
proof -
  define us1 where "us1 = (case map_of (us_curr_agt_inf us) inf_key of
                   None \<Rightarrow> us
                 | Some v \<Rightarrow> if v \<noteq> PStr inf_value then us_reset_agent_informs us else us)"
  have t1: "goal_key_tracked us1"
    using assms goal_key_tracked_reset_agent_informs
    by (simp add: us1_def split: option.splits)
  have f1: "patience us1 = patience us" "us_goal us1 = us_goal us"
    by (simp_all add: us1_def us_reset_agent_informs_frame split: option.splits)
  let ?r = "accept_inform us inf_key inf_value"
  have ans: "us_not_answ_req ?r = set_discard (us_not_answ_req us1) inf_key"
    and agt: "us_curr_agt_inf ?r = AList.update inf_key (PStr inf_value) (us_curr_agt_inf us1)"
    and sat: "us_satisfied ?r \<longrightarrow> us_not_answ_req ?r = []"
    and fr: "patience ?r = patience us1" "us_goal ?r = us_goal us1"
    by (simp_all add: accept_inform_def Let_def us1_def [symmetric])
  have keys: "fst ` set (us_curr_agt_inf ?r) = insert inf_key (fst ` set (us_curr_agt_inf us1))"
    unfolding agt by (simp add: dom_update [unfolded dom_map_of_conv_image_fst])
  show tr: "goal_key_tracked ?r"
    using t1 unfolding goal_key_tracked_def ans keys
    by (auto simp: set_set_discard)
  show "us_satisfied ?r \<longrightarrow> GOAL_KEY \<in> fst ` set (us_curr_agt_inf ?r)"
    using tr sat unfolding goal_key_tracked_def by auto
  show "patience ?r = patience us" "us_goal ?r = us_goal us"
    using fr f1 by simp_all
qed

text \<open>What answering the agent action does to a simulator that is not satisfied.\<close>

lemma us_respond_props:
  assumes tr: "goal_key_tracked us" and ns: "\<not> us_satisfied us"
    and r: "us_respond us agent_action d = Inr us1"
  shows "goal_key_tracked us1
       \<and> (us_satisfied us1 \<longrightarrow> GOAL_KEY \<in> fst ` set (us_curr_agt_inf us1))"
proof -
  define us0 where "us0 = us\<lparr>us_round := us_round us + 1, us_action := UDict [] []\<rparr>"
  have tr0: "goal_key_tracked us0" and ns0: "\<not> us_satisfied us0"
    using tr ns by (simp_all add: us0_def goal_key_tracked_def)
  have keep: "goal_key_tracked (u\<lparr>us_action := a\<rparr>) = goal_key_tracked u"
    "us_satisfied (u\<lparr>us_action := a\<rparr>) = us_satisfied u"
    "us_curr_agt_inf (u\<lparr>us_action := a\<rparr>) = us_curr_agt_inf u" for u a
    by (simp_all add: goal_key_tracked_def)
  have "(agent_action = AStr WCP \<and> pick_random_action (us_reset_agent_informs us0) d = Inr us1)
      \<or> (agent_action \<noteq> AStr WCP \<and> response_to_inform us0 agent_action d = Inr us1)
      \<or> (agent_action \<noteq> AStr WCP \<and> response_to_request us0 agent_action d = Inr us1)
      \<or> us1 = us0"
  proof (cases "agent_action = AStr WCP")
    case True
    with r show ?thesis by (simp add: us_respond_def Let_def us0_def [symmetric])
  next
    case False
    with r obtain intent where
      "(if intent = INF_intent then response_to_inform us0 agent_action d
        else if intent = REQ then response_to_request us0 agent_action d
        else Inr us0) = Inr us1"
      by (auto simp: us_respond_def Let_def us0_def [symmetric] ebind_eq_Inr)
    with False show ?thesis
      by (cases "intent = INF_intent"; cases "intent = REQ") simp_all
  qed
  then consider
      (wcp) "pick_random_action (us_reset_agent_informs us0) d = Inr us1"
    | (inf) "response_to_inform us0 agent_action d = Inr us1"
    | (req) "response_to_request us0 agent_action d = Inr us1"
    | (none) "us1 = us0"
    by blast
  then show ?thesis
  proof cases
    case wcp
    from pick_random_action_action [OF wcp] obtain a where
      "us1 = (us_reset_agent_informs us0)\<lparr>us_action := a\<rparr>" by blast
    with goal_key_tracked_reset_agent_informs [of us0] ns0 show ?thesis
      by (simp add: keep us_reset_agent_informs_frame)
  next
    case inf
    then obtain x inf_key inf_value conflict_keys where
      ck: "get_conflict_keys [(inf_key, PStr inf_value)] (goal_INF (us_goal us0)) = Inr conflict_keys"
      and rest: "(if conflict_keys \<noteq> []
       then (let us1 = us_reset_agent_informs us0;
                 us2 = us1\<lparr>us_not_sent_inf := set_update (us_not_sent_inf us1) conflict_keys\<rparr>
             in ebind (random_choice conflict_keys (us_c198 d)) (\<lambda>key.
                  if us_r199 d then inform_goal_value us2 key
                  else Inr (us2\<lparr>us_action := UStr RJCT\<rparr>)))
       else pick_random_action (accept_inform us0 inf_key inf_value) d) = Inr us1"
      by (auto simp: response_to_inform_def ebind_eq_Inr)
    show ?thesis
    proof (cases "conflict_keys \<noteq> []")
      case True
      define us2 where "us2 = (us_reset_agent_informs us0)
          \<lparr>us_not_sent_inf := set_update (us_not_sent_inf (us_reset_agent_informs us0)) conflict_keys\<rparr>"
      have tr2: "goal_key_tracked us2" and ns2: "\<not> us_satisfied us2"
        using goal_key_tracked_reset_agent_informs [of us0] ns0
        by (simp_all add: us2_def goal_key_tracked_def us_reset_agent_informs_def)
      have "\<exists>a. us1 = us2\<lparr>us_action := a\<rparr>"
      proof (cases "us_r199 d")
        case r: True
        with rest True obtain key where "inform_goal_value us2 key = Inr us1"
          by (auto simp: Let_def ebind_eq_Inr us2_def)
        then show ?thesis by (rule inform_goal_value_action)
      next
        case r: False
        with rest True have "us1 = us2\<lparr>us_action := UStr RJCT\<rparr>"
          by (auto simp: Let_def ebind_eq_Inr us2_def)
        then show ?thesis by blast
      qed
      then obtain a where "us1 = us2\<lparr>us_action := a\<rparr>" by blast
      with tr2 ns2 show ?thesis by (simp add: keep)
    next
      case False
      with rest have "pick_random_action (accept_inform us0 inf_key inf_value) d = Inr us1"
        by simp
      from pick_random_action_action [OF this] obtain a where
        "us1 = (accept_inform us0 inf_key inf_value)\<lparr>us_action := a\<rparr>" by blast
      with accept_inform_props(1,2) [OF tr0, of inf_key inf_value] show ?thesis
        by (simp add: keep)
    qed
  next
    case req
    from response_to_request_action [OF req] obtain a where "us1 = us0\<lparr>us_action := a\<rparr>"
      by blast
    with tr0 ns0 show ?thesis by (simp add: keep)
  next
    case none
    with tr0 ns0 show ?thesis by simp
  qed
qed

lemma us_recheck_props:
  assumes "us_recheck us1 agent_action = Inr (is_done, us2)"
  shows "us_curr_agt_inf us2 = us_curr_agt_inf us1 \<and> us_not_answ_req us2 = us_not_answ_req us1
       \<and> us_action us2 = us_action us1 \<and> us_not_sent_inf us2 = us_not_sent_inf us1
       \<and> patience us2 = patience us1 \<and> us_goal us2 = us_goal us1
       \<and> (us_satisfied us2 \<longrightarrow> us_satisfied us1 \<and> is_done)
       \<and> (agent_action \<noteq> AStr NMA \<longrightarrow>
            is_done = (us_round us1 = patience us1 \<or> us_satisfied us1))
       \<and> (agent_action = AStr NMA \<longrightarrow> is_done)"
proof (cases "agent_action = AStr NMA")
  case True
  with assms show ?thesis by (auto simp: us_recheck_def)
next
  case nma: False
  show ?thesis
  proof (cases "us_satisfied us1")
    case False
    with assms nma show ?thesis by (auto simp: us_recheck_def Let_def)
  next
    case True
    with assms nma obtain proposal ok1 m1 where
      rest: "(if ok1
                then ebind (dict_get (us_curr_agt_inf us1) GOAL_KEY) (\<lambda>proposal'.
                     ebind (check_goal_proposal_consistency m1 proposal' (us_curr_agt_inf us1))
                       (\<lambda>(ok2, m2).
                         Inr (True, us1\<lparr>us_satisfied := ok2, us_kb_manager := m2\<rparr>)))
                else Inr (True, us1\<lparr>us_satisfied := False, us_kb_manager := m1\<rparr>))
             = Inr (is_done, us2)"
      by (auto simp: us_recheck_def Let_def ebind_eq_Inr)
    have "\<exists>b m. is_done = True \<and> us2 = us1\<lparr>us_satisfied := b, us_kb_manager := m\<rparr>"
    proof (cases ok1)
      case True
      with rest show ?thesis by (auto simp: ebind_eq_Inr)
    next
      case False
      with rest show ?thesis by auto
    qed
    then obtain b m where "is_done = True"
      "us2 = us1\<lparr>us_satisfied := b, us_kb_manager := m\<rparr>"
      by blast
    with True nma show ?thesis by simp
  qed
qed

lemma us_mark_sent_props:
  assumes "us_mark_sent us2 is_done = Inr us3"
  shows "us_curr_agt_inf us3 = us_curr_agt_inf us2 \<and> us_not_answ_req us3 = us_not_answ_req us2
       \<and> us_action us3 = us_action us2 \<and> us_satisfied us3 = us_satisfied us2
       \<and> patience us3 = patience us2 \<and> us_goal us3 = us_goal us2
       \<and> (is_done \<longrightarrow> us3 = us2)"
  using assms
  by (auto simp: us_mark_sent_def split: if_splits usr_act.splits)

lemma map_sum_fst_Inr: "map_sum id fst x = Inr r \<Longrightarrow> \<exists>s. x = Inr (r, s)"
  by (cases x) auto

lemma us_reset_props:
  "us_reset us c98 = Inr us' \<Longrightarrow> goal_key_tracked us' \<and> \<not> us_satisfied us'"
  by (auto simp: us_reset_def ebind_eq_Inr goal_key_tracked_def)

lemma get_init_action_props:
  assumes "get_init_action us c303 c313 = Inr (a, us')"
  shows "us_curr_agt_inf us' = us_curr_agt_inf us \<and> us_not_answ_req us' = us_not_answ_req us
       \<and> us_satisfied us' = us_satisfied us"
proof -
  from assms obtain informs where
    rest: "(let us1 = us\<lparr>us_not_sent_inf := set_difference_update (us_not_sent_inf us) (map fst informs)\<rparr>;
              requestable_keys = filter_req_keys us1 (goal_REQ (us_goal us1))
          in if requestable_keys \<noteq> []
             then ebind (random_choice requestable_keys c313) (\<lambda>k. Inr (UDict informs [k], us1))
             else Inr (UDict informs [], us1)) = Inr (a, us')"
    by (auto simp: get_init_action_def Let_def ebind_eq_Inr)
  define us1 where
    "us1 = us\<lparr>us_not_sent_inf := set_difference_update (us_not_sent_inf us) (map fst informs)\<rparr>"
  from rest have "us' = us1"
    by (cases "filter_req_keys us1 (goal_REQ (us_goal us1)) \<noteq> []")
       (auto simp: Let_def us1_def [symmetric] ebind_eq_Inr)
  then show ?thesis by (simp add: us1_def)
qed

lemma us_step_props:
  assumes tr: "goal_key_tracked us" and ns: "\<not> us_satisfied us"
    and st: "us_step us agent_action d = Inr ((a, reward, is_done, sat), us')"
  shows "goal_key_tracked us'
       \<and> (us_satisfied us' \<longrightarrow> GOAL_KEY \<in> fst ` set (us_curr_agt_inf us'))
       \<and> (\<not> is_done \<longrightarrow> \<not> us_satisfied us')"
proof -
  from st obtain us1 us2 where r: "us_respond us agent_action d = Inr us1"
    and c: "us_recheck us1 agent_action = Inr (is_done, us2)"
    and m: "us_mark_sent us2 is_done = Inr us'"
    by (auto simp: us_step_def ebind_eq_Inr)
  note 1 = us_respond_props [OF tr ns r]
  note 2 = us_recheck_props [OF c]
  note 3 = us_mark_sent_props [OF m]
  from 1 2 3 show ?thesis
    by (auto simp: goal_key_tracked_def)
qed

lemma us_episode_inv:
  "us_episode us is_done \<Longrightarrow>
     goal_key_tracked us
     \<and> (us_satisfied us \<longrightarrow> GOAL_KEY \<in> fst ` set (us_curr_agt_inf us))
     \<and> (\<not> is_done \<longrightarrow> \<not> us_satisfied us)"
proof (induction rule: us_episode.induct)
  case (ep_reset us c98 us')
  from us_reset_props [OF this] show ?case by simp
next
  case (ep_init us c303 c313 a us')
  from get_init_action_props [OF ep_init.hyps(2)] ep_init.IH show ?case
    by (simp add: goal_key_tracked_def)
next
  case (ep_step us agent_action d a reward is_done sat us')
  from ep_step.IH have "goal_key_tracked us" "\<not> us_satisfied us" by simp_all
  from us_step_props [OF this ep_step.hyps(2)] show ?case .
qed

lemma efilter_error: "efilter p xs = Inl e \<Longrightarrow> \<exists>x\<in>set xs. p x = Inl e"
proof (induction xs)
  case Nil
  then show ?case by simp
next
  case (Cons x xs)
  then show ?case
    by (cases "p x"; cases "efilter p xs") simp_all
qed

lemma find_matching_docs_error:
  assumes "find_matching_docs m c = Inl e"
  shows "e = AttributeError \<or> e = ValueError_int"
proof -
  from find_matching_docs_Inl [OF assms] efilter_error
  obtain doc where "ebind (get_conflict_keys c doc) (\<lambda>ck. Inr (ck = [])) = Inl e"
    unfolding matching_docs_def by blast
  then have "get_conflict_keys c doc = Inl e" by (simp add: ebind_eq_Inl)
  then show ?thesis by (rule get_conflict_keys_error)
qed

lemma check_goal_proposal_consistency_error:
  assumes "check_goal_proposal_consistency m proposal constraints = Inl e"
  shows "e = AttributeError \<or> e = ValueError_int \<or> e = ValueError_unpack"
proof (cases "find_matching_docs m [(GOAL_KEY, proposal)]")
  case (Inl e')
  with assms have "e' = e" by (simp add: check_goal_proposal_consistency_def)
  with find_matching_docs_error [OF Inl] show ?thesis by blast
next
  case (Inr p)
  obtain docs m1 where p: "p = (docs, m1)" by (cases p)
  show ?thesis
  proof (cases "\<exists>doc. docs = [doc]")
    case True
    then obtain doc where "docs = [doc]" by blast
    with assms Inr p have "get_conflict_keys constraints doc = Inl e"
      by (simp add: check_goal_proposal_consistency_def ebind_eq_Inl)
    from get_conflict_keys_error [OF this] show ?thesis by blast
  next
    case False
    then have "(case docs of
                [proposed_doc] \<Rightarrow>
                  ebind (get_conflict_keys constraints proposed_doc) (\<lambda>ck. Inr (ck = [], m1))
              | _ \<Rightarrow> Inl ValueError_unpack) = Inl ValueError_unpack"
      by (cases docs; cases "tl docs") auto
    with assms Inr p show ?thesis
      by (simp add: check_goal_proposal_consistency_def)
  qed
qed

lemma us_recheck_no_KeyError:
  assumes "us_satisfied us1 \<longrightarrow> GOAL_KEY \<in> fst ` set (us_curr_agt_inf us1)"
  shows "us_recheck us1 agent_action \<noteq> Inl (KeyError k)"
proof
  assume a: "us_recheck us1 agent_action = Inl (KeyError k)"
  then have nma: "agent_action \<noteq> AStr NMA" and sat: "us_satisfied us1"
    by (auto simp: us_recheck_def Let_def split: if_splits)
  with assms obtain proposal where g: "dict_get (us_curr_agt_inf us1) GOAL_KEY = Inr proposal"
    by (cases "map_of (us_curr_agt_inf us1) GOAL_KEY")
       (auto simp: dict_get_def map_of_eq_None_iff)
  note r = a [unfolded us_recheck_def Let_def if_not_P [OF nma] if_P [OF sat] g ebind_Inr]
  show False
  proof (cases "check_goal_proposal_consistency (us_kb_manager us1) proposal (goal_INF (us_goal us1))")
    case (Inl e)
    with r have "e = KeyError k" by simp
    with check_goal_proposal_consistency_error [OF Inl] show False by simp
  next
    case (Inr p)
    obtain ok1 m1 where p: "p = (ok1, m1)" by (cases p)
    show False
    proof (cases ok1)
      case False
      with r Inr p show False by simp
    next
      case True
      with r Inr p have c2: "check_goal_proposal_consistency m1 proposal (us_curr_agt_inf us1)
                    = Inl (KeyError k)"
        by (cases "check_goal_proposal_consistency m1 proposal (us_curr_agt_inf us1)") auto
      from check_goal_proposal_consistency_error [OF c2] show False by simp
    qed
  qed
qed

text \<open>
  C10. In every state of an episode (the simulator is reset, gives its initial action,
  and is stepped while the last step has not reported the end): if the satisfied flag is
  true, the goal key is among the current agent informs; before a step the flag is
  false.  In every step of an episode, after the agent action has been answered, the
  flag again implies that the goal key is among the agent informs, so the check of the
  goal proposal never raises \<^verbatim>\<open>KeyError\<close>.
\<close>

theorem goal_key_present_when_satisfied:
  assumes "us_episode us is_done"
  shows "(us_satisfied us \<longrightarrow> GOAL_KEY \<in> fst ` set (us_curr_agt_inf us))
       \<and> (\<not> is_done \<longrightarrow>
            \<not> us_satisfied us
            \<and> (\<forall>agent_action d us1.
                  us_respond us agent_action d = Inr us1 \<longrightarrow>
                  (us_satisfied us1 \<longrightarrow> GOAL_KEY \<in> fst ` set (us_curr_agt_inf us1))
                  \<and> (\<forall>k. us_recheck us1 agent_action \<noteq> Inl (KeyError k))))"
proof -
  note inv = us_episode_inv [OF assms]
  have "\<forall>agent_action d us1.
          us_respond us agent_action d = Inr us1 \<longrightarrow>
          (us_satisfied us1 \<longrightarrow> GOAL_KEY \<in> fst ` set (us_curr_agt_inf us1))
          \<and> (\<forall>k. us_recheck us1 agent_action \<noteq> Inl (KeyError k))"
    if live: "\<not> is_done"
  proof (intro allI impI)
    fix agent_action d us1
    assume r: "us_respond us agent_action d = Inr us1"
    from inv live have "goal_key_tracked us" "\<not> us_satisfied us" by simp_all
    from us_respond_props [OF this r]
    have s: "us_satisfied us1 \<longrightarrow> GOAL_KEY \<in> fst ` set (us_curr_agt_inf us1)" by simp
    with us_recheck_no_KeyError [OF s]
    show "(us_satisfied us1 \<longrightarrow> GOAL_KEY \<in> fst ` set (us_curr_agt_inf us1))
          \<and> (\<forall>k. us_recheck us1 agent_action \<noteq> Inl (KeyError k))"
      by blast
  qed
  with inv show ?thesis by blast
qed

theorem goal_key_present_when_satisfied_witness:
  "map_sum id fst example_success = Inr (UStr THX, 31, True, True)
   \<and> (\<exists>us. example_success = Inr ((UStr THX, 31, True, True), us)
          \<and> us_episode us True \<and> us_satisfied us
          \<and> GOAL_KEY \<in> fst ` set (us_curr_agt_inf us))"
proof -
  have ev: "map_sum id fst example_success = Inr (UStr THX, 31, True, True)"
    by code_simp
  from map_sum_fst_Inr [OF this]
  obtain us' where s: "example_success = Inr ((UStr THX, 31, True, True), us')"
    by blast
  then obtain us0 a us1 where
    0: "UserSimulator [example_goal2] [doc_D1] 15 0 = Inr us0"
    and 1: "get_init_action us0 0 0 = Inr (a, us1)"
    and 2: "us_step us1 (ATup [INF_intent, ''doi'', ''D1'']) example_draws
              = Inr ((UStr THX, 31, True, True), us')"
    by (auto simp: example_success_def example_ready_def ebind_eq_Inr)
  from 0 have "us_episode us0 False"
    unfolding UserSimulator_def by (rule ep_reset)
  from ep_init [OF this 1] have "us_episode us1 False" .
  from ep_step [OF this 2] have ep: "us_episode us' True" .
  from 2 have sat: "us_satisfied us'"
    by (auto simp: us_step_def ebind_eq_Inr)
  from goal_key_present_when_satisfied [OF ep] sat
  have "GOAL_KEY \<in> fst ` set (us_curr_agt_inf us')" by simp
  with ev s ep sat show ?thesis by blast
qed

lemma accept_inform_frame:
  "patience (accept_inform us inf_key inf_value) = patience us"
  "us_goal (accept_inform us inf_key inf_value) = us_goal us"
  by (simp_all add: accept_inform_def Let_def us_reset_agent_informs_def split: option.splits)

lemma us_respond_frame:
  assumes r: "us_respond us agent_action d = Inr us1"
  shows "patience us1 = patience us \<and> us_goal us1 = us_goal us"
proof -
  define us0 where "us0 = us\<lparr>us_round := us_round us + 1, us_action := UDict [] []\<rparr>"
  have f0: "patience us0 = patience us" "us_goal us0 = us_goal us"
    by (simp_all add: us0_def)
  have "(agent_action = AStr WCP \<and> pick_random_action (us_reset_agent_informs us0) d = Inr us1)
      \<or> (agent_action \<noteq> AStr WCP \<and> response_to_inform us0 agent_action d = Inr us1)
      \<or> (agent_action \<noteq> AStr WCP \<and> response_to_request us0 agent_action d = Inr us1)
      \<or> us1 = us0"
  proof (cases "agent_action = AStr WCP")
    case True
    with r show ?thesis by (simp add: us_respond_def Let_def us0_def [symmetric])
  next
    case False
    with r obtain intent where
      "(if intent = INF_intent then response_to_inform us0 agent_action d
        else if intent = REQ then response_to_request us0 agent_action d
        else Inr us0) = Inr us1"
      by (auto simp: us_respond_def Let_def us0_def [symmetric] ebind_eq_Inr)
    with False show ?thesis
      by (cases "intent = INF_intent"; cases "intent = REQ") simp_all
  qed
  then consider
      (wcp) "pick_random_action (us_reset_agent_informs us0) d = Inr us1"
    | (inf) "response_to_inform us0 agent_action d = Inr us1"
    | (req) "response_to_request us0 agent_action d = Inr us1"
    | (none) "us1 = us0"
    by blast
  then have "patience us1 = patience us0 \<and> us_goal us1 = us_goal us0"
  proof cases
    case wcp
    from pick_random_action_action [OF wcp] obtain a where
      "us1 = (us_reset_agent_informs us0)\<lparr>us_action := a\<rparr>" by blast
    then show ?thesis by (simp add: us_reset_agent_informs_frame)
  next
    case inf
    then obtain x inf_key inf_value conflict_keys where
      rest: "(if conflict_keys \<noteq> []
       then (let us1 = us_reset_agent_informs us0;
                 us2 = us1\<lparr>us_not_sent_inf := set_update (us_not_sent_inf us1) conflict_keys\<rparr>
             in ebind (random_choice conflict_keys (us_c198 d)) (\<lambda>key.
                  if us_r199 d then inform_goal_value us2 key
                  else Inr (us2\<lparr>us_action := UStr RJCT\<rparr>)))
       else pick_random_action (accept_inform us0 inf_key inf_value) d) = Inr us1"
      by (auto simp: response_to_inform_def ebind_eq_Inr)
    show ?thesis
    proof (cases "conflict_keys \<noteq> []")
      case True
      define us2 where "us2 = (us_reset_agent_informs us0)
          \<lparr>us_not_sent_inf := set_update (us_not_sent_inf (us_reset_agent_informs us0)) conflict_keys\<rparr>"
      have f2: "patience us2 = patience us0" "us_goal us2 = us_goal us0"
        by (simp_all add: us2_def us_reset_agent_informs_frame)
      have "\<exists>a. us1 = us2\<lparr>us_action := a\<rparr>"
      proof (cases "us_r199 d")
        case r: True
        with rest True obtain key where "inform_goal_value us2 key = Inr us1"
          by (auto simp: Let_def ebind_eq_Inr us2_def)
        then show ?thesis by (rule inform_goal_value_action)
      next
        case r: False
        with rest True have "us1 = us2\<lparr>us_action := UStr RJCT\<rparr>"
          by (auto simp: Let_def ebind_eq_Inr us2_def)
        then show ?thesis by blast
      qed
      then obtain a where "us1 = us2\<lparr>us_action := a\<rparr>" by blast
      with f2 show ?thesis by simp
    next
      case False
      with rest have "pick_random_action (accept_inform us0 inf_key inf_value) d = Inr us1"
        by simp
      from pick_random_action_action [OF this] obtain a where
        "us1 = (accept_inform us0 inf_key inf_value)\<lparr>us_action := a\<rparr>" by blast
      then show ?thesis by (simp add: accept_inform_frame)
    qed
  next
    case req
    from response_to_request_action [OF req] obtain a where "us1 = us0\<lparr>us_action := a\<rparr>"
      by blast
    then show ?thesis by simp
  next
    case none
    then show ?thesis by simp
  qed
  with f0 show ?thesis by simp
qed

lemma py_round_nonneg: "0 \<le> x \<Longrightarrow> 0 \<le> py_round x"
  by (auto simp: py_round_def Let_def)

lemma us_weight_nonneg: "0 \<le> us_weight us"
  by (simp add: us_weight_def)

text \<open>
  C1, as the code has it.  Whenever \<^verbatim>\<open>step\<close> returns: a turn that does not end the
  episode has reward \<open>-1\<close>; a turn that ends it satisfied has reward
  \<open>2 * patience + |goal requests| + |goal informs|\<close>; a turn that ends it unsatisfied
  has reward \<open>- round (weight * patience)\<close>, where the weight, the sum of the two
  ratios, is multiplied by the patience before it is rounded.  For a patience that is
  not negative the last reward is at most 0, and the reward of a satisfied end is
  returned exactly when the episode ends satisfied.  The satisfied flag implies the end
  of the episode; the patience and the goal are those before the step.
\<close>

theorem us_step_reward:
  assumes "us_step us agent_action d = Inr ((action, reward, is_done, satisfied), us')"
  shows "satisfied = us_satisfied us' \<and> (satisfied \<longrightarrow> is_done)
       \<and> patience us' = patience us \<and> us_goal us' = us_goal us
       \<and> (\<not> is_done \<longrightarrow> reward = - 1)
       \<and> (is_done \<and> satisfied \<longrightarrow>
            reward = 2 * patience us + (int (length (goal_REQ (us_goal us)))
                                       + int (length (goal_INF (us_goal us)))))
       \<and> (is_done \<and> \<not> satisfied \<longrightarrow>
            goal_INF (us_goal us) \<noteq> []
            \<and> reward = - py_round (us_weight us' * of_int (patience us)))
       \<and> (0 \<le> patience us \<longrightarrow>
            (is_done \<and> \<not> satisfied \<longrightarrow> reward \<le> 0)
            \<and> ((reward = 2 * patience us + (int (length (goal_REQ (us_goal us)))
                                           + int (length (goal_INF (us_goal us)))))
                 = (is_done \<and> satisfied)))"
proof -
  from assms obtain us1 us2 where r: "us_respond us agent_action d = Inr us1"
    and c: "us_recheck us1 agent_action = Inr (is_done, us2)"
    and m: "us_mark_sent us2 is_done = Inr us'"
    and rw: "us_reward us' is_done = Inr reward"
    and sat: "satisfied = us_satisfied us'"
    by (auto simp: us_step_def ebind_eq_Inr)
  note 1 = us_respond_frame [OF r]
  note 2 = us_recheck_props [OF c]
  note 3 = us_mark_sent_props [OF m]
  from 1 2 3 have fr: "patience us' = patience us" "us_goal us' = us_goal us"
    by simp_all
  from 2 3 sat have sd: "satisfied \<longrightarrow> is_done" by simp
  let ?good = "2 * patience us + (int (length (goal_REQ (us_goal us)))
                                  + int (length (goal_INF (us_goal us))))"
  have a: "\<not> is_done \<longrightarrow> reward = - 1"
    using rw by (auto simp: us_reward_def)
  have b: "is_done \<and> satisfied \<longrightarrow> reward = ?good"
    using rw sat fr by (auto simp: us_reward_def)
  have c: "is_done \<and> \<not> satisfied \<longrightarrow>
            goal_INF (us_goal us) \<noteq> []
            \<and> reward = - py_round (us_weight us' * of_int (patience us))"
    using rw sat fr by (auto simp: us_reward_def split: if_splits)
  have d: "(is_done \<and> \<not> satisfied \<longrightarrow> reward \<le> 0) \<and> ((reward = ?good) = (is_done \<and> satisfied))"
    if p: "0 \<le> patience us"
  proof -
    have "0 \<le> us_weight us' * of_int (patience us)"
      using us_weight_nonneg [of us'] p by simp
    from py_round_nonneg [OF this] c
    have le: "is_done \<and> \<not> satisfied \<longrightarrow> reward \<le> 0" by auto
    have pos: "is_done \<and> \<not> satisfied \<longrightarrow> 0 < ?good"
    proof
      assume "is_done \<and> \<not> satisfied"
      with c have "goal_INF (us_goal us) \<noteq> []" by simp
      then have "0 < length (goal_INF (us_goal us))" by simp
      with p show "0 < ?good" by linarith
    qed
    have nn: "0 \<le> ?good" using p by simp
    have "(reward = ?good) = (is_done \<and> satisfied)"
    proof (cases is_done)
      case False
      with a sd nn show ?thesis by auto
    next
      case True
      show ?thesis
      proof (cases satisfied)
        case True
        with \<open>is_done\<close> b show ?thesis by simp
      next
        case False
        with \<open>is_done\<close> le pos show ?thesis by auto
      qed
    qed
    with le show ?thesis by simp
  qed
  from sat sd fr a b c d show ?thesis by blast
qed

theorem us_step_reward_witness:
  "map_sum id fst example_success = Inr (UStr THX, 31, True, True)
   \<and> map_sum id fst example_last_step = Inr (UDict [(''keywords'', PStr OWT)] [], - 3, True, False)
   \<and> (\<exists>us us'. example_start = Inr us
         \<and> us_step us (ATup [REQ, ''keywords'']) example_draws
             = Inr ((UDict [(''keywords'', PStr OWT)] [], - 3, True, False), us')
         \<and> patience us = 2
         \<and> - py_round (us_weight us' * of_int (patience us)) = - 3
         \<and> \<not> us_satisfied us')"
proof -
  have ev1: "map_sum id fst example_success = Inr (UStr THX, 31, True, True)"
    by code_simp
  have ev2: "map_sum id fst example_last_step
               = Inr (UDict [(''keywords'', PStr OWT)] [], - 3, True, False)"
    by code_simp
  from map_sum_fst_Inr [OF ev2]
  obtain us' where s: "example_last_step
               = Inr ((UDict [(''keywords'', PStr OWT)] [], - 3, True, False), us')"
    by blast
  from s [unfolded example_last_step_def ebind_eq_Inr]
  obtain us where st: "example_start = Inr us"
    and step: "us_step us (ATup [REQ, ''keywords'']) example_draws
             = Inr ((UDict [(''keywords'', PStr OWT)] [], - 3, True, False), us')"
    by blast
  have "map_sum id patience example_start = Inr 2"
    by code_simp
  from this [unfolded st] have p: "patience us = 2" by simp
  from us_step_reward [OF step] p
  have "- py_round (us_weight us' * of_int (patience us)) = - 3" "\<not> us_satisfied us'"
    by simp_all
  with ev1 ev2 st step p show ?thesis by blast
qed

text \<open>
  The claim C1 as stated fails in the reward of an unsatisfied end.  In the example
  one of one request and one of two informs are open at the end and the patience is 2:
  the code returns \<open>- round (1.5 * 2) = - 3\<close>, the formula of the claim gives
  \<open>- round 1.5 * 2 = - 4\<close>.  All the numbers involved are exact in binary floating
  point.
\<close>

theorem us_step_reward_counterexample:
  "map_sum id fst example_last_step = Inr (UDict [(''keywords'', PStr OWT)] [], - 3, True, False)
   \<and> map_sum id (spec_unsatisfied_reward \<circ> snd) example_last_step = Inr (- 4)"
  by code_simp

section \<open>Theorems: the experience buffers\<close>

lemma add_experience_within_capacity:
  "within_capacity dm \<Longrightarrow> within_capacity (snd (add_experience dm s a r s' d w))"
  by (simp add: within_capacity_def add_experience_def)

lemma add_experiences_within_capacity:
  "within_capacity dm \<Longrightarrow> within_capacity (add_experiences dm calls)"
proof (induction calls arbitrary: dm)
  case Nil
  then show ?case by simp
next
  case (Cons c calls)
  obtain s a r s' d w where c: "c = ((s, a, r, s', d), w)"
    by (cases c) auto
  from Cons.prems have "within_capacity (snd (add_experience dm s a r s' d w))"
    by (rule add_experience_within_capacity)
  then show ?case
    unfolding c by (simp add: Cons.IH)
qed

text \<open>
  C4. Starting from buffers within capacity and after any sequence of
  \<^verbatim>\<open>add_experience\<close> calls: neither buffer exceeds its configured capacity; a
  further call on a buffer that holds exactly its capacity returns \<open>True\<close> and
  changes nothing; any other call returns \<open>False\<close> and appends exactly the one
  tuple to the selected buffer, leaving the other buffer and both sizes as they are.
\<close>

theorem add_experience_capacity:
  assumes "within_capacity dm0"
  shows "let dm = add_experiences dm0 calls;
             sel_len = (if warmup then length (warmup_mem dm) else length (rl_mem dm));
             sel_size = (if warmup then warmup_mem_size dm else rl_mem_size dm)
         in int (length (warmup_mem dm)) \<le> warmup_mem_size dm
          \<and> int (length (rl_mem dm)) \<le> rl_mem_size dm
          \<and> (int sel_len = sel_size \<longrightarrow> add_experience dm s a r s' d warmup = (True, dm))
          \<and> (int sel_len \<noteq> sel_size \<longrightarrow>
               add_experience dm s a r s' d warmup =
                 (False, if warmup then dm\<lparr>warmup_mem := warmup_mem dm @ [(s, a, r, s', d)]\<rparr>
                                   else dm\<lparr>rl_mem := rl_mem dm @ [(s, a, r, s', d)]\<rparr>))
          \<and> within_capacity (snd (add_experience dm s a r s' d warmup))"
proof -
  have wc: "within_capacity (add_experiences dm0 calls)"
    using assms by (rule add_experiences_within_capacity)
  then have "within_capacity (snd (add_experience (add_experiences dm0 calls) s a r s' d warmup))"
    by (rule add_experience_within_capacity)
  with wc show ?thesis
    by (simp add: Let_def within_capacity_def add_experience_def)
qed

theorem add_experience_capacity_witness:
  "let dm0 = \<lparr>rl_mem = [], rl_mem_size = 1, warmup_mem = [], warmup_mem_size = 1\<rparr>;
       e = ([0::int], 0::nat, - 1::int, [1::int], False);
       dm = add_experiences dm0 [(e, True), (e, True), (e, False)]
   in within_capacity dm0
    \<and> warmup_mem dm = [e] \<and> rl_mem dm = [e]
    \<and> add_experience dm [0] 0 (- 1) [1] False True = (True, dm)
    \<and> add_experience dm [0] 0 (- 1) [1] False False = (True, dm)"
proof -
  let ?dm0 = "\<lparr>rl_mem = [], rl_mem_size = 1, warmup_mem = [], warmup_mem_size = 1\<rparr>
                :: int list dialogue_manager"
  let ?e = "([0::int], 0::nat, - 1::int, [1::int], False)"
  have wc: "within_capacity ?dm0"
    by (simp add: within_capacity_def)
  have run: "add_experiences ?dm0 [(?e, True), (?e, True), (?e, False)]
               = \<lparr>rl_mem = [?e], rl_mem_size = 1, warmup_mem = [?e], warmup_mem_size = 1\<rparr>"
    by (simp add: add_experience_def)
  from add_experience_capacity [OF wc, of "[(?e, True), (?e, True), (?e, False)]" True "[0]" 0 "- 1" "[1]" False]
       add_experience_capacity [OF wc, of "[(?e, True), (?e, True), (?e, False)]" False "[0]" 0 "- 1" "[1]" False]
  show ?thesis
    unfolding Let_def run using wc by simp
qed



end
